theory Spec2Isabelle
  imports Main "HOL-Library.Sublist"
begin

section \<open>Errors\<close>

text \<open>
  The exceptions the modelled code can raise. \<open>IndexError\<close> is what NumPy raises for an
  integer index outside an array and for a boolean mask of the wrong length;
  \<open>BroadcastError\<close> is the \<open>ValueError\<close> of an in-place operation on arrays of
  incompatible shapes; \<open>InvalidDirection\<close> is the \<open>ValueError\<close> raised by
  \<open>_navigate_tree\<close>; \<open>AssertionError\<close> is the failed \<open>assert\<close> of
  \<open>_mapping_from_regions_list\<close>; \<open>KeyError\<close> is a missing key of the
  \<open>mappings\<close> dictionary.
\<close>

datatype error = IndexError | BroadcastError | InvalidDirection | AssertionError | KeyError

definition bindE :: "error + 'a \<Rightarrow> ('a \<Rightarrow> error + 'b) \<Rightarrow> error + 'b" where
  "bindE m f = (case m of Inl e \<Rightarrow> Inl e | Inr x \<Rightarrow> f x)"

section \<open>The array primitives the code calls\<close>

text \<open>
  One-dimensional arrays are lists. Positions are natural numbers: every index array that
  the code builds comes from \<open>np.where\<close>, \<open>np.unique\<close>, \<open>np.intersect1d\<close> or
  \<open>ismember\<close>, none of which produces a negative index.
\<close>

fun first_index :: "'a list \<Rightarrow> 'a \<Rightarrow> nat" where
  "first_index [] x = 0"
| "first_index (y # ys) x = (if y = x then 0 else Suc (first_index ys x))"

text \<open>\<open>a[idx]\<close> with an integer index array: an index out of range raises.\<close>

definition take_idx :: "'a list \<Rightarrow> nat list \<Rightarrow> error + 'a list" where
  "take_idx xs idx =
     (if list_all (\<lambda>i. i < length xs) idx then Inr (map (\<lambda>i. xs ! i) idx)
      else Inl IndexError)"

text \<open>\<open>a[mask]\<close> with a boolean mask: the mask must have the length of the array.\<close>

definition mask_select :: "'a list \<Rightarrow> bool list \<Rightarrow> 'a list" where
  "mask_select xs m = map fst (filter snd (zip xs m))"

definition bool_idx :: "'a list \<Rightarrow> bool list \<Rightarrow> error + 'a list" where
  "bool_idx xs m =
     (if length m = length xs then Inr (mask_select xs m) else Inl IndexError)"

text \<open>\<open>np.where(mask)[0]\<close>: the positions that hold \<open>True\<close>, ascending.\<close>

definition np_where :: "bool list \<Rightarrow> nat list" where
  "np_where m = filter (\<lambda>i. m ! i) [0..<length m]"

text \<open>\<open>np.sum(mask)\<close> of a boolean array.\<close>

definition np_sum :: "bool list \<Rightarrow> nat" where
  "np_sum m = length (filter (\<lambda>b. b) m)"

text \<open>\<open>np.unique(a)\<close>: the sorted distinct values; with \<open>return_inverse\<close>, also the
  position in that array of every element of \<open>a\<close>.\<close>

definition np_unique :: "int list \<Rightarrow> int list" where
  "np_unique xs = sort (remdups xs)"

definition np_unique_inverse :: "int list \<Rightarrow> nat list" where
  "np_unique_inverse xs = map (first_index (np_unique xs)) xs"

text \<open>\<open>np.isin(a, b)\<close>.\<close>

definition np_isin :: "'a list \<Rightarrow> 'a list \<Rightarrow> bool list" where
  "np_isin a b = map (\<lambda>x. x \<in> set b) a"

text \<open>
  \<open>np.intersect1d(a, b, return_indices=True)\<close>: the sorted common values, and for each of
  them the position of its first occurrence in \<open>a\<close> and in \<open>b\<close>.
\<close>

definition intersect1d_vals :: "int list \<Rightarrow> int list \<Rightarrow> int list" where
  "intersect1d_vals a b = filter (\<lambda>v. v \<in> set b) (np_unique a)"

definition intersect1d_ind1 :: "int list \<Rightarrow> int list \<Rightarrow> nat list" where
  "intersect1d_ind1 a b = map (first_index a) (intersect1d_vals a b)"

text \<open>
  \<open>iblutil.numerical.ismember(a, b)\<close> returns \<open>(lia, locb)\<close>: \<open>lia\<close> is
  \<open>np.isin(a, b)\<close> and \<open>locb\<close> holds, for the members of \<open>a\<close> that occur in \<open>b\<close>
  and in their order, the position of the first occurrence in \<open>b\<close>, so that
  \<open>a[lia] == b[locb]\<close>. Elements of \<open>a\<close> that are not in \<open>b\<close> have no entry in
  \<open>locb\<close>.
\<close>

definition ismember_lia :: "'a list \<Rightarrow> 'a list \<Rightarrow> bool list" where
  "ismember_lia a b = np_isin a b"

definition ismember_locb :: "'a list \<Rightarrow> 'a list \<Rightarrow> nat list" where
  "ismember_locb a b = map (first_index b) (filter (\<lambda>x. x \<in> set b) a)"

section \<open>The store\<close>

text \<open>
  The dataclass \<open>_BrainRegions\<close> holds six columns. \<open>parent\<close> is a floating-point
  column in which the root and the void region hold NaN; NaN is \<open>None\<close> here, and it is
  equal to no identifier. The \<open>Bunch\<close> that \<open>get\<close> returns has the same six keys,
  so it is a value of the same record type. \<open>BrainRegions\<close> adds the dictionary
  \<open>mappings\<close> from scheme names to position arrays.
\<close>

record brain_regions =
  id_col :: "int list"
  name :: "string list"
  acronym :: "string list"
  rgb :: "(nat \<times> nat \<times> nat) list"
  level :: "int list"
  parent :: "int option list"

record BrainRegions = brain_regions +
  mappings :: "string \<rightharpoonup> nat list"

text \<open>The constructor reads every column from one table: the columns have one length.\<close>

definition wf_regions :: "'a brain_regions_scheme \<Rightarrow> bool" where
  "wf_regions br \<longleftrightarrow>
     length (name br) = length (id_col br) \<and> length (acronym br) = length (id_col br) \<and>
     length (rgb br) = length (id_col br) \<and> length (level br) = length (id_col br) \<and>
     length (parent br) = length (id_col br)"

subsection \<open>get\<close>

text \<open>
  \<^verbatim>\<open>uid, uind = np.unique(ids, return_inverse=True)\<close>
  \<^verbatim>\<open>a, iself, _ = np.intersect1d(self.id, uid, assume_unique=False, return_indices=True)\<close>
  \<^verbatim>\<open>for k in self.__dataclass_fields__.keys(): b[k] = self.__getattribute__(k)[iself[uind]]\<close>
\<close>

definition get :: "'a brain_regions_scheme \<Rightarrow> int list \<Rightarrow> error + brain_regions" where
  "get br ids =
     (let uid = np_unique ids;
          uind = np_unique_inverse ids;
          iself = intersect1d_ind1 (id_col br) uid
      in bindE (take_idx iself uind) (\<lambda>sel.
         bindE (take_idx (id_col br) sel) (\<lambda>b_id.
         bindE (take_idx (name br) sel) (\<lambda>b_name.
         bindE (take_idx (acronym br) sel) (\<lambda>b_acronym.
         bindE (take_idx (rgb br) sel) (\<lambda>b_rgb.
         bindE (take_idx (level br) sel) (\<lambda>b_level.
         bindE (take_idx (parent br) sel) (\<lambda>b_parent.
         Inr \<lparr>id_col = b_id, name = b_name, acronym = b_acronym, rgb = b_rgb,
              level = b_level, parent = b_parent\<rparr>))))))))"

subsection \<open>Tree navigation\<close>

text \<open>
  \<open>indices |= other\<close> updates the mask in place: \<open>other\<close> must have the shape of
  \<open>indices\<close> or broadcast to it (a single element does); the mask keeps its length.
\<close>

definition mask_ior :: "bool list \<Rightarrow> bool list \<Rightarrow> error + bool list" where
  "mask_ior a b =
     (if length b = length a then Inr (map2 (\<or>) a b)
      else if length b = 1 then Inr (map (\<lambda>x. x \<or> hd b) a)
      else Inl BroadcastError)"

text \<open>
  The body of the \<open>if/elif/else\<close> of the loop: one closure pass over the whole table.
  \<^verbatim>\<open>if direction == 'down': indices |= ismember(self.parent, self.id[indices])[0]\<close>
  \<^verbatim>\<open>elif direction == 'up': indices |= ismember(self.id, self.parent[indices])[0]\<close>
  \<^verbatim>\<open>else: raise ValueError("direction should be either 'up' or 'down'")\<close>
\<close>

definition closure_step ::
  "'a brain_regions_scheme \<Rightarrow> string \<Rightarrow> bool list \<Rightarrow> error + bool list" where
  "closure_step br direction indices =
     (if direction = ''down'' then
        bindE (bool_idx (id_col br) indices) (\<lambda>sel.
          mask_ior indices (ismember_lia (parent br) (map Some sel)))
      else if direction = ''up'' then
        bindE (bool_idx (parent br) indices) (\<lambda>sel.
          mask_ior indices (ismember_lia (map Some (id_col br)) sel))
      else Inl InvalidDirection)"

text \<open>
  The control points of \<open>_navigate_tree\<close>. \<open>NavStart\<close> is the entry of the method,
  before line 96. \<open>NavLoop indices count\<close> is the head of \<open>while True\<close> with the two
  locals. \<open>NavDone indices\<close> is the \<open>break\<close>, \<open>NavRaise e\<close> an exception leaving the
  method. One step from \<open>NavStart\<close> runs the two statements before the loop; one step
  from \<open>NavLoop\<close> runs the loop body once.
\<close>

datatype nav_state =
  NavStart | NavLoop "bool list" nat | NavDone "bool list" | NavRaise error

definition nav_step ::
  "'a brain_regions_scheme \<Rightarrow> int list \<Rightarrow> string \<Rightarrow> nav_state \<Rightarrow> nav_state" where
  "nav_step br ids direction s =
     (case s of
        NavStart \<Rightarrow>
          (let indices = ismember_lia (id_col br) ids in NavLoop indices (np_sum indices))
      | NavLoop indices count \<Rightarrow>
          (case closure_step br direction indices of
             Inl e \<Rightarrow> NavRaise e
           | Inr indices' \<Rightarrow>
               if count = np_sum indices' then NavDone indices'
               else NavLoop indices' (np_sum indices'))
      | NavDone indices \<Rightarrow> NavDone indices
      | NavRaise e \<Rightarrow> NavRaise e)"

definition n_false :: "bool list \<Rightarrow> nat" where
  "n_false m = length (filter (\<lambda>b. \<not> b) m)"

fun nav_measure :: "'a brain_regions_scheme \<Rightarrow> int list \<Rightarrow> nav_state \<Rightarrow> nat" where
  "nav_measure br ids NavStart = 2 * length (id_col br) + 3"
| "nav_measure br ids (NavLoop indices count) =
     2 * n_false indices + (if count = np_sum indices then 1 else 2)"
| "nav_measure br ids (NavDone indices) = 0"
| "nav_measure br ids (NavRaise e) = 0"

text \<open>A pass never shrinks the mask and never changes its length.\<close>

lemma n_false_np_sum: "n_false m + np_sum m = length m"
  unfolding n_false_def np_sum_def
  using sum_length_filter_compl[of "\<lambda>b. b" m] by simp

lemma np_sum_mono:
  "length r = length a \<Longrightarrow> (\<forall>j<length a. a ! j \<longrightarrow> r ! j) \<Longrightarrow> np_sum a \<le> np_sum r"
proof (induction a arbitrary: r)
  case Nil then show ?case by (simp add: np_sum_def)
next
  case (Cons x xs)
  then obtain y ys where r: "r = y # ys" by (cases r) auto
  from Cons.prems r have "length ys = length xs" by simp
  moreover have "\<forall>j<length xs. xs ! j \<longrightarrow> ys ! j"
    using Cons.prems(2) r by auto
  ultimately have "np_sum xs \<le> np_sum ys" using Cons.IH by blast
  moreover have "x \<longrightarrow> y" using Cons.prems(2) r by auto
  ultimately show ?case using r by (auto simp: np_sum_def)
qed

lemma mask_ior_Inr:
  assumes "mask_ior a b = Inr r"
  shows "length r = length a" and "\<forall>j<length a. a ! j \<longrightarrow> r ! j"
  using assms by (auto simp: mask_ior_def split: if_splits)

lemma closure_step_Inr:
  assumes "closure_step br d i = Inr r"
  shows "length r = length i" and "\<forall>j<length i. i ! j \<longrightarrow> r ! j"
  using assms mask_ior_Inr
  by (auto simp: closure_step_def bindE_def split: if_splits sum.splits)

lemma nav_step_loop_decreases:
  "nav_measure br ids (nav_step br ids d (NavLoop i c)) < nav_measure br ids (NavLoop i c)"
proof (cases "closure_step br d i")
  case (Inl e) then show ?thesis by (simp add: nav_step_def)
next
  case (Inr r)
  have len: "length r = length i" and le: "np_sum i \<le> np_sum r"
    using closure_step_Inr[OF Inr] np_sum_mono by auto
  have "n_false r + np_sum r = n_false i + np_sum i"
    using len by (simp add: n_false_np_sum)
  with le Inr show ?thesis by (auto simp: nav_step_def)
qed

lemma nav_step_start_decreases:
  "nav_measure br ids (nav_step br ids d NavStart) < nav_measure br ids NavStart"
proof -
  have "n_false (ismember_lia (id_col br) ids) \<le> length (id_col br)"
    using n_false_np_sum[of "ismember_lia (id_col br) ids"]
    by (simp add: ismember_lia_def np_isin_def)
  then show ?thesis by (simp add: nav_step_def Let_def)
qed

text \<open>Running the method from a control point to the \<open>break\<close> or to an exception.\<close>

function nav_run ::
  "'a brain_regions_scheme \<Rightarrow> int list \<Rightarrow> string \<Rightarrow> nav_state \<Rightarrow> error + bool list" where
  "nav_run br ids direction (NavDone indices) = Inr indices"
| "nav_run br ids direction (NavRaise e) = Inl e"
| "nav_run br ids direction NavStart =
     nav_run br ids direction (nav_step br ids direction NavStart)"
| "nav_run br ids direction (NavLoop indices count) =
     nav_run br ids direction (nav_step br ids direction (NavLoop indices count))"
  by pat_completeness auto
termination
  by (relation "measure (\<lambda>(br, ids, d, s). nav_measure br ids s)")
     (simp_all add: nav_step_loop_decreases nav_step_start_decreases del: nav_measure.simps)

text \<open>
  \<open>_navigate_tree\<close>: the loop, then \<^verbatim>\<open>return self.get(self.id[indices])\<close>.
\<close>

definition navigate_tree ::
  "'a brain_regions_scheme \<Rightarrow> int list \<Rightarrow> string \<Rightarrow> error + brain_regions" where
  "navigate_tree br ids direction =
     bindE (nav_run br ids direction NavStart) (\<lambda>indices.
     bindE (bool_idx (id_col br) indices) (\<lambda>sel. get br sel))"

definition descendants :: "'a brain_regions_scheme \<Rightarrow> int list \<Rightarrow> error + brain_regions" where
  "descendants br ids = navigate_tree br ids ''down''"

definition ancestors :: "'a brain_regions_scheme \<Rightarrow> int list \<Rightarrow> error + brain_regions" where
  "ancestors br ids = navigate_tree br ids ''up''"

subsection \<open>Building a mapping\<close>

text \<open>\<^verbatim>\<open>new_map = np.unique(np.r_[-new_map, new_map])\<close>\<close>

definition symmetrize :: "int list \<Rightarrow> int list" where
  "symmetrize new_map = np_unique (map uminus new_map @ new_map)"

text \<open>
  \<open>np.argsort(keys)\<close>: the positions of \<open>keys\<close> in ascending order of key. NumPy does
  not fix the order of equal keys; here equal keys keep their order.
\<close>

definition np_argsort :: "int list \<Rightarrow> nat list" where
  "np_argsort ks = map snd (sort_key fst (zip ks [0..<length ks]))"

text \<open>
  \<open>mapind[idx] = v\<close> for an index array and a scalar, and \<open>mapind[iid] = iid\<close>. Every
  index written here is a position of \<open>self.id\<close>, and \<open>mapind\<close> has its length.
\<close>

definition assign_all :: "nat list \<Rightarrow> nat list \<Rightarrow> nat \<Rightarrow> nat list" where
  "assign_all mapind idx v = fold (\<lambda>j m. m[j := v]) idx mapind"

definition assign_self :: "nat list \<Rightarrow> nat list \<Rightarrow> nat list" where
  "assign_self mapind idx = fold (\<lambda>j m. m[j := j]) idx mapind"

text \<open>
  The body of the loop over the scheme's members:
  \<^verbatim>\<open>descendants = self.descendants(self.id[iid[i]]).id\<close>
  \<^verbatim>\<open>_, idesc, _ = np.intersect1d(self.id, descendants, return_indices=True)\<close>
  \<^verbatim>\<open>mapind[idesc] = iid[i]\<close>
\<close>

definition mapping_step ::
  "'a brain_regions_scheme \<Rightarrow> nat list \<Rightarrow> nat list \<Rightarrow> nat \<Rightarrow> error + nat list" where
  "mapping_step br iid mapind i =
     bindE (descendants br [id_col br ! (iid ! i)]) (\<lambda>d.
       Inr (assign_all mapind (intersect1d_ind1 (id_col br) (id_col d)) (iid ! i)))"

fun mapping_loop ::
  "'a brain_regions_scheme \<Rightarrow> nat list \<Rightarrow> nat list \<Rightarrow> nat list \<Rightarrow> error + nat list" where
  "mapping_loop br iid mapind [] = Inr mapind"
| "mapping_loop br iid mapind (i # rest) =
     bindE (mapping_step br iid mapind i) (\<lambda>mapind'. mapping_loop br iid mapind' rest)"

definition I_ROOT :: nat where "I_ROOT = 1"
definition I_VOID :: nat where "I_VOID = 0"

text \<open>
  \<open>_mapping_from_regions_list\<close>. The \<open>assert\<close> is the validation; \<open>mapind[0] = I_VOID\<close>
  raises on an empty table; \<open>lateralize is False\<close> holds for the boolean \<open>False\<close>.
\<close>

definition mapping_from_regions_list ::
  "'a brain_regions_scheme \<Rightarrow> int list \<Rightarrow> bool \<Rightarrow> error + nat list" where
  "mapping_from_regions_list br new_map lateralize =
     (let new_map' = symmetrize new_map in
      if \<not> list_all (\<lambda>b. b) (np_isin new_map' (id_col br)) then Inl AssertionError
      else
        let iid = np_where (ismember_lia (id_col br) new_map');
            mapind0 = replicate (length (id_col br)) I_ROOT;
            mapind1 = assign_self mapind0 iid
        in bindE (take_idx (level br) iid) (\<lambda>levels.
           bindE (mapping_loop br iid mapind1 (np_argsort levels)) (\<lambda>mapind2.
           if mapind2 = [] then Inl IndexError
           else
             let mapind3 = mapind2[0 := I_VOID] in
             if \<not> lateralize then
               take_idx mapind3 (ismember_locb (map abs (id_col br)) (id_col br))
             else Inr mapind3)))"

subsection \<open>Remapping and hemisphere filtering\<close>

text \<open>
  \<^verbatim>\<open>_, inds = ismember(region_ids, self.id[self.mappings[source_map]])\<close>
  \<^verbatim>\<open>return self.id[self.mappings[target_map][inds]]\<close>
\<close>

definition remap :: "'a BrainRegions_scheme \<Rightarrow> int list \<Rightarrow> string \<Rightarrow> string \<Rightarrow> error + int list" where
  "remap br region_ids source_map target_map =
     (case mappings br source_map of
        None \<Rightarrow> Inl KeyError
      | Some src \<Rightarrow>
          bindE (take_idx (id_col br) src) (\<lambda>src_ids.
            let inds = ismember_locb region_ids src_ids in
            (case mappings br target_map of
               None \<Rightarrow> Inl KeyError
             | Some tgt \<Rightarrow>
                 bindE (take_idx tgt inds) (\<lambda>sel. take_idx (id_col br) sel))))"

text \<open>
  \<open>_filter_lr_acro\<close> returns a flat index array or, from \<open>np.c_\<close>, an array of two
  columns. \<open>hemisphere\<close> is \<open>None\<close> or a string; \<open>'lr' in mapping\<close> is a substring
  test.
\<close>

datatype lr_values = Flat "int list" | Columns "(int \<times> int) list"

definition filter_lr_acro :: "int list \<Rightarrow> string \<Rightarrow> string option \<Rightarrow> lr_values" where
  "filter_lr_acro vals mapping hemisphere =
     (if hemisphere = Some ''left'' then Flat (map (\<lambda>v. v + 1327) vals)
      else if hemisphere = Some ''right'' then Flat vals
      else if sublist ''lr'' mapping then Columns (map (\<lambda>v. (v + 1327, v)) vals)
      else Flat vals)"

section \<open>A small table\<close>

text \<open>
  The tree root \<open>\<rightarrow>\<close> A \<open>\<rightarrow>\<close> {B, C}, B \<open>\<rightarrow>\<close> {D}, laid out as the constructor lays a
  table out: the void region at position 0, the root at position 1, the rows of the source
  table in order, then the mirrored row (negated id and parent) of every row with a
  positive id. Ids: root 997, A 10, B 20, C 30, D 40.
\<close>

definition fixture_mappings :: "string \<rightharpoonup> nat list" where
  "fixture_mappings =
     [''Allen-lr'' \<mapsto> [0, 1, 2, 3, 4, 5, 6, 7, 8, 9, 10],
      ''A'' \<mapsto> [0, 1, 2, 2, 2, 2, 1, 2, 2, 2, 2],
      ''A-lr'' \<mapsto> [0, 1, 2, 2, 2, 2, 1, 7, 7, 7, 7]]"

definition fixture :: BrainRegions where
  "fixture =
     \<lparr>id_col = [0, 997, 10, 20, 30, 40, -997, -10, -20, -30, -40],
      name = [''void'', ''root'', ''A'', ''B'', ''C'', ''D'',
              ''root (left)'', ''A (left)'', ''B (left)'', ''C (left)'', ''D (left)''],
      acronym = [''void'', ''root'', ''A'', ''B'', ''C'', ''D'',
                 ''root'', ''A'', ''B'', ''C'', ''D''],
      rgb = [(0, 0, 0), (255, 255, 255), (255, 0, 0), (0, 255, 0), (0, 0, 255), (9, 9, 9),
             (255, 255, 255), (255, 0, 0), (0, 255, 0), (0, 0, 255), (9, 9, 9)],
      level = [0, 0, 1, 2, 2, 3, 0, 1, 2, 2, 3],
      parent = [None, None, Some 997, Some 10, Some 10, Some 20,
                None, Some (-997), Some (-10), Some (-10), Some (-20)],
      mappings = fixture_mappings\<rparr>"

section \<open>Notions used to state the properties\<close>

text \<open>
  The positions of the scheme's members (\<open>iid\<close> in the code), and the test that the
  region at position \<open>p\<close> is among the descendants that \<open>descendants\<close> returns for the
  region at position \<open>q\<close>.
\<close>

definition scheme_members :: "'a brain_regions_scheme \<Rightarrow> int list \<Rightarrow> nat list" where
  "scheme_members br S = np_where (ismember_lia (id_col br) (symmetrize S))"

definition in_descendants :: "'a brain_regions_scheme \<Rightarrow> nat \<Rightarrow> nat \<Rightarrow> bool" where
  "in_descendants br q p =
     (case descendants br [id_col br ! q] of
        Inl e \<Rightarrow> False
      | Inr d \<Rightarrow> id_col br ! p \<in> set (id_col d))"

text \<open>
  The positions reachable downwards from a seed: the positions whose id is a seed, and the
  positions whose parent is the id of a reachable position.
\<close>

inductive_set reach_down :: "'a brain_regions_scheme \<Rightarrow> int list \<Rightarrow> nat set"
  for br :: "'a brain_regions_scheme" and seeds :: "int list" where
  seed: "p < length (id_col br) \<Longrightarrow> id_col br ! p \<in> set seeds \<Longrightarrow> p \<in> reach_down br seeds"
| child: "q \<in> reach_down br seeds \<Longrightarrow> p < length (id_col br) \<Longrightarrow>
          parent br ! p = Some (id_col br ! q) \<Longrightarrow> p \<in> reach_down br seeds"

text \<open>
  A lateralized table: every row has a mirror row with the negated id and the negated
  parent (the void row, with id 0 and no parent, is its own mirror). This is the layout
  the constructor produces from a source table of non-negative ids.
\<close>

definition mirrored :: "'a brain_regions_scheme \<Rightarrow> bool" where
  "mirrored br =
     list_all (\<lambda>p. list_ex (\<lambda>q. id_col br ! q = - (id_col br ! p) \<and>
                                 parent br ! q = map_option uminus (parent br ! p))
                            [0..<length (id_col br)])
              [0..<length (id_col br)]"

text \<open>
  The offset as the specification words it, for comparison with the code: the number of
  unlateralized rows of the loaded table (the rows whose id is not negative).
\<close>

definition spec_hemisphere_offset :: "'a brain_regions_scheme \<Rightarrow> nat" where
  "spec_hemisphere_offset br = length (filter (\<lambda>x. 0 \<le> x) (id_col br))"

section \<open>Facts about the array primitives\<close>

lemma first_index_less: "x \<in> set xs \<Longrightarrow> first_index xs x < length xs"
  by (induction xs) auto

lemma nth_first_index: "x \<in> set xs \<Longrightarrow> xs ! first_index xs x = x"
  by (induction xs) auto

lemma first_index_nth: "distinct xs \<Longrightarrow> i < length xs \<Longrightarrow> first_index xs (xs ! i) = i"
proof (induction xs arbitrary: i)
  case Nil then show ?case by simp
next
  case (Cons y ys)
  show ?case
  proof (cases i)
    case 0 then show ?thesis by simp
  next
    case (Suc j)
    with Cons.prems have "ys ! j \<in> set ys" "j < length ys" by auto
    with Cons.prems have "y \<noteq> ys ! j" by auto
    with Cons Suc show ?thesis by simp
  qed
qed

lemma set_np_unique [simp]: "set (np_unique xs) = set xs"
  by (simp add: np_unique_def)

lemma distinct_np_unique [simp]: "distinct (np_unique xs)"
  by (simp add: np_unique_def)

lemma sorted_np_unique [simp]: "sorted (np_unique xs)"
  by (simp add: np_unique_def)

lemma length_np_unique: "length (np_unique xs) = card (set xs)"
  using distinct_card[of "np_unique xs"] by simp

lemma np_unique_cong: "set xs = set ys \<Longrightarrow> np_unique xs = np_unique ys"
  by (rule sorted_distinct_set_unique) simp_all

lemma take_idx_Inr:
  "(\<forall>i\<in>set idx. i < length xs) \<Longrightarrow> take_idx xs idx = Inr (map (\<lambda>i. xs ! i) idx)"
  by (simp add: take_idx_def list_all_iff)

lemma take_idx_Inl:
  "i \<in> set idx \<Longrightarrow> length xs \<le> i \<Longrightarrow> take_idx xs idx = Inl IndexError"
  unfolding take_idx_def list_all_iff using not_less by auto

lemma set_intersect1d_vals [simp]: "set (intersect1d_vals a b) = set a \<inter> set b"
  by (auto simp: intersect1d_vals_def)

lemma distinct_intersect1d_vals [simp]: "distinct (intersect1d_vals a b)"
  by (simp add: intersect1d_vals_def)

lemma sorted_intersect1d_vals [simp]: "sorted (intersect1d_vals a b)"
  by (simp add: intersect1d_vals_def sorted_wrt_filter)

lemma intersect1d_vals_subset:
  "set b \<subseteq> set a \<Longrightarrow> intersect1d_vals a (np_unique b) = np_unique b"
  by (rule sorted_distinct_set_unique) auto

lemma get_selection:
  assumes "set ids \<subseteq> set (id_col br)"
  shows "take_idx (intersect1d_ind1 (id_col br) (np_unique ids)) (np_unique_inverse ids)
           = Inr (map (first_index (id_col br)) ids)"
proof -
  let ?uid = "np_unique ids"
  have iself: "intersect1d_ind1 (id_col br) ?uid = map (first_index (id_col br)) ?uid"
    using intersect1d_vals_subset[OF assms] by (simp add: intersect1d_ind1_def)
  have in_range: "\<forall>i\<in>set (np_unique_inverse ids). i < length (map (first_index (id_col br)) ?uid)"
    by (auto simp: np_unique_inverse_def intro: first_index_less)
  have "map (\<lambda>i. map (first_index (id_col br)) ?uid ! i) (np_unique_inverse ids)
          = map (first_index (id_col br)) ids"
    by (auto simp: np_unique_inverse_def first_index_less nth_first_index)
  with take_idx_Inr[OF in_range] iself show ?thesis by simp
qed

lemma get_present:
  assumes wf: "wf_regions br" and sub: "set ids \<subseteq> set (id_col br)"
  shows "get br ids =
           Inr \<lparr>id_col = ids,
                name = map (\<lambda>x. name br ! first_index (id_col br) x) ids,
                acronym = map (\<lambda>x. acronym br ! first_index (id_col br) x) ids,
                rgb = map (\<lambda>x. rgb br ! first_index (id_col br) x) ids,
                level = map (\<lambda>x. level br ! first_index (id_col br) x) ids,
                parent = map (\<lambda>x. parent br ! first_index (id_col br) x) ids\<rparr>"
proof -
  let ?sel = "map (first_index (id_col br)) ids"
  have r: "\<forall>i\<in>set ?sel. i < length (id_col br)"
    using sub by (auto intro: first_index_less)
  have t: "\<And>col. length col = length (id_col br) \<Longrightarrow>
             take_idx col ?sel = Inr (map (\<lambda>x. col ! first_index (id_col br) x) ids)"
    using r by (simp add: take_idx_Inr comp_def)
  have i: "map (\<lambda>x. id_col br ! first_index (id_col br) x) ids = ids"
    using sub by (intro map_idI) (auto simp: nth_first_index)
  show ?thesis
    using wf t[of "id_col br"] t[of "name br"] t[of "acronym br"] t[of "rgb br"]
      t[of "level br"] t[of "parent br"] i
    by (simp add: get_def Let_def get_selection[OF sub] bindE_def wf_regions_def)
qed

lemma get_absent:
  assumes "\<not> set ids \<subseteq> set (id_col br)"
  shows "get br ids = Inl IndexError"
proof -
  let ?uid = "np_unique ids"
  let ?iself = "intersect1d_ind1 (id_col br) ?uid"
  have "set (id_col br) \<inter> set ids \<subset> set ids" using assms by auto
  then have "card (set (id_col br) \<inter> set ids) < card (set ids)"
    by (simp add: psubset_card_mono)
  moreover have "length ?iself = card (set (id_col br) \<inter> set ids)"
    using distinct_card[of "intersect1d_vals (id_col br) ?uid"]
    by (simp add: intersect1d_ind1_def)
  ultimately have lt: "length ?iself < length ?uid" by (simp add: length_np_unique)
  then have ne: "?uid \<noteq> []" by auto
  define x where "x = last ?uid"
  have xin: "x \<in> set ids" using ne last_in_set[of ?uid] by (simp add: x_def)
  have "first_index ?uid x = length ?uid - 1"
    using first_index_nth[of ?uid "length ?uid - 1"] ne
    by (simp add: x_def last_conv_nth)
  then have "length ?iself \<le> first_index ?uid x" using lt by simp
  moreover have "first_index ?uid x \<in> set (np_unique_inverse ids)"
    using xin by (auto simp: np_unique_inverse_def)
  ultimately have "take_idx ?iself (np_unique_inverse ids) = Inl IndexError"
    by (rule take_idx_Inl[rotated])
  then show ?thesis by (simp add: get_def Let_def bindE_def)
qed

section \<open>Row lookup\<close>

text \<open>
  Claim C1. When every element of \<open>ids\<close> occurs in the store's id column (and the columns
  of the store have one length), \<open>get\<close> returns a result; each of its six fields has the
  length of \<open>ids\<close>; and its \<open>k\<close>-th row is the store row at the position of \<open>ids ! k\<close>,
  so order and repeats of the input are kept.
\<close>

theorem get_keeps_order_and_multiplicity:
  assumes "wf_regions br" and "set ids \<subseteq> set (id_col br)"
  shows "\<exists>b. get br ids = Inr b \<and>
           length (id_col b) = length ids \<and> length (name b) = length ids \<and>
           length (acronym b) = length ids \<and> length (rgb b) = length ids \<and>
           length (level b) = length ids \<and> length (parent b) = length ids \<and>
           (\<forall>k<length ids.
              first_index (id_col br) (ids ! k) < length (id_col br) \<and>
              id_col br ! first_index (id_col br) (ids ! k) = ids ! k \<and>
              id_col b ! k = id_col br ! first_index (id_col br) (ids ! k) \<and>
              name b ! k = name br ! first_index (id_col br) (ids ! k) \<and>
              acronym b ! k = acronym br ! first_index (id_col br) (ids ! k) \<and>
              rgb b ! k = rgb br ! first_index (id_col br) (ids ! k) \<and>
              level b ! k = level br ! first_index (id_col br) (ids ! k) \<and>
              parent b ! k = parent br ! first_index (id_col br) (ids ! k))"
proof -
  have "\<forall>k<length ids. ids ! k \<in> set (id_col br)"
    using assms(2) by auto
  then show ?thesis
    by (simp add: get_present[OF assms] first_index_less nth_first_index)
qed

theorem get_keeps_order_and_multiplicity_witness:
  "wf_regions fixture \<and> set [20, 10, 20] \<subseteq> set (id_col fixture) \<and>
   (\<exists>b. get fixture [20, 10, 20] = Inr b \<and>
      id_col b = [20, 10, 20] \<and> name b = [''B'', ''A'', ''B''] \<and>
      level b = [2, 1, 2] \<and> parent b = [Some 10, Some 997, Some 10])"
proof -
  have wf: "wf_regions fixture" by (simp add: wf_regions_def fixture_def)
  have sub: "set [20, 10, 20] \<subseteq> set (id_col fixture)" by (simp add: fixture_def)
  obtain b where b: "get fixture [20, 10, 20] = Inr b"
    using get_keeps_order_and_multiplicity[OF wf sub] by blast
  have "get fixture [20, 10, 20] =
          Inr \<lparr>id_col = [20, 10, 20], name = [''B'', ''A'', ''B''],
               acronym = [''B'', ''A'', ''B''],
               rgb = [(0, 255, 0), (255, 0, 0), (0, 255, 0)], level = [2, 1, 2],
               parent = [Some 10, Some 997, Some 10]\<rparr>"
    by (simp add: get_present[OF wf sub]) (simp add: fixture_def)
  with b wf sub show ?thesis by auto
qed

text \<open>
  Claim C2 says that an id absent from the store is dropped and the result is shorter than
  the input. The code does not do that: \<open>iself\<close> has one entry per matched unique id,
  \<open>uind\<close> ranges over all unique ids, and \<open>iself[uind]\<close> reads past the end of
  \<open>iself\<close>. On the small table, \<open>get\<close> of an input holding the absent id 11 raises.
\<close>

theorem get_absent_id_counterexample:
  "11 \<notin> set (id_col fixture) \<and> get fixture [20, 11] = Inl IndexError"
proof -
  have "\<not> set [20, 11] \<subseteq> set (id_col fixture)" by (simp add: fixture_def)
  then have "get fixture [20, 11] = Inl IndexError" by (rule get_absent)
  then show ?thesis by (simp add: fixture_def)
qed

text \<open>
  Claim C2, amended: whenever some element of \<open>ids\<close> is absent from the store's id
  column, \<open>get\<close> raises an \<open>IndexError\<close> and returns no result.
\<close>

theorem get_absent_id_raises:
  assumes "x \<in> set ids" and "x \<notin> set (id_col br)"
  shows "get br ids = Inl IndexError"
  using assms by (intro get_absent) auto

theorem get_absent_id_raises_witness:
  "(11::int) \<in> set [20, 11] \<and> 11 \<notin> set (id_col fixture) \<and>
   get fixture [20, 11] = Inl IndexError"
proof -
  have a: "(11::int) \<in> set [20, 11]" by simp
  have b: "11 \<notin> set (id_col fixture)" by (simp add: fixture_def)
  from get_absent_id_raises[OF a b] a b show ?thesis by simp
qed

section \<open>Hemisphere filtering\<close>

text \<open>
  Claim C9 says that the offset between a row and its left-hemisphere copy is the number
  of unlateralized rows of the loaded table. The code adds the literal 1327 whatever the
  table is: on the small table, which has 6 unlateralized rows, index 2 with hemisphere
  \<open>left\<close> becomes 1329, not 8.
\<close>

theorem filter_lr_acro_offset_counterexample:
  "spec_hemisphere_offset fixture = 6 \<and>
   filter_lr_acro [2] ''Allen-lr'' (Some ''left'') = Flat [1329] \<and>
   filter_lr_acro [2] ''Allen-lr'' (Some ''left'')
     \<noteq> Flat (map (\<lambda>v. v + int (spec_hemisphere_offset fixture)) [2])"
  by (simp add: spec_hemisphere_offset_def fixture_def filter_lr_acro_def)

text \<open>
  Claim C9, amended: the offset is the constant 1327, independent of the loaded table.
  Hemisphere \<open>left\<close> selects index + 1327, \<open>right\<close> selects the index unmodified, and an
  unspecified hemisphere on a mapping whose name contains \<open>lr\<close> selects both as a
  two-column result with the left-hemisphere value (index + 1327) in the first column.
\<close>

theorem filter_lr_acro_constant_offset:
  "filter_lr_acro vals mapping (Some ''left'') = Flat (map (\<lambda>v. v + 1327) vals) \<and>
   filter_lr_acro vals mapping (Some ''right'') = Flat vals \<and>
   filter_lr_acro vals (pre @ ''lr'' @ post) None = Columns (map (\<lambda>v. (v + 1327, v)) vals)"
proof -
  have "sublist ''lr'' (pre @ ''lr'' @ post)" by (rule sublist_appendI)
  then show ?thesis by (simp add: filter_lr_acro_def)
qed

theorem filter_lr_acro_constant_offset_witness:
  "filter_lr_acro [2, 3] ''Allen-lr'' (Some ''left'') = Flat [1329, 1330] \<and>
   filter_lr_acro [2, 3] ''Allen-lr'' (Some ''right'') = Flat [2, 3] \<and>
   filter_lr_acro [2, 3] ''Allen-lr'' None = Columns [(1329, 2), (1330, 3)]"
  using filter_lr_acro_constant_offset[of "[2, 3]" "''Allen-lr''" "''Allen-''" "[]"]
  by simp

section \<open>Remapping\<close>

lemma ismember_locb_all:
  "set a \<subseteq> set b \<Longrightarrow> ismember_locb a b = map (first_index b) a"
  by (simp add: ismember_locb_def subset_code(1))

text \<open>
  Claim C8. Let \<open>m\<close> be the position array of scheme \<open>S\<close>, with every entry a position of
  the store. An id is canonical in \<open>S\<close> when the store row at some position \<open>p\<close> has this
  id and its representative \<open>m ! p\<close> has the same id. Remapping canonical ids from \<open>S\<close>
  to \<open>S\<close> returns them unchanged.
\<close>

theorem remap_same_scheme_identity:
  assumes m: "mappings br S = Some m"
    and range: "\<forall>v\<in>set m. v < length (id_col br)"
    and canon: "\<forall>x\<in>set region_ids. \<exists>p. p < length m \<and> p < length (id_col br) \<and>
                  id_col br ! p = x \<and> id_col br ! (m ! p) = x"
  shows "remap br region_ids S S = Inr region_ids"
proof -
  let ?src = "map (\<lambda>i. id_col br ! i) m"
  have src: "take_idx (id_col br) m = Inr ?src"
    using range by (rule take_idx_Inr)
  have sub: "set region_ids \<subseteq> set ?src"
  proof
    fix x assume "x \<in> set region_ids"
    then obtain p where "p < length m" "id_col br ! (m ! p) = x" using canon by blast
    then show "x \<in> set ?src" by (auto simp: in_set_conv_nth intro!: exI[of _ p])
  qed
  let ?inds = "map (first_index ?src) region_ids"
  have inds: "ismember_locb region_ids ?src = ?inds"
    using sub by (rule ismember_locb_all)
  have lt: "\<forall>i\<in>set ?inds. i < length m"
    using sub first_index_less[of _ ?src] by auto
  have sel: "take_idx m ?inds = Inr (map (\<lambda>i. m ! i) ?inds)"
    using lt by (rule take_idx_Inr)
  have lt2: "\<forall>v\<in>set (map (\<lambda>i. m ! i) ?inds). v < length (id_col br)"
    using lt range by auto
  have key: "id_col br ! (m ! first_index ?src x) = x" if x: "x \<in> set region_ids" for x
  proof -
    have xs: "x \<in> set ?src" using sub x by auto
    have "first_index ?src x < length m" using first_index_less[OF xs] by simp
    then have "?src ! first_index ?src x = id_col br ! (m ! first_index ?src x)"
      by simp
    with nth_first_index[OF xs] show ?thesis by simp
  qed
  have "map (\<lambda>x. id_col br ! (m ! first_index ?src x)) region_ids = region_ids"
    by (rule map_idI) (rule key)
  then have eq: "map (\<lambda>i. id_col br ! i) (map (\<lambda>i. m ! i) ?inds) = region_ids"
    by (simp add: comp_def)
  have out: "take_idx (id_col br) (map (\<lambda>i. m ! i) ?inds) = Inr region_ids"
    using take_idx_Inr[OF lt2] by (simp only: eq)
  show ?thesis
    by (simp only: remap_def m option.case src bindE_def sum.case Let_def inds sel out)
qed

theorem remap_same_scheme_identity_witness:
  "mappings fixture ''A'' = Some [0, 1, 2, 2, 2, 2, 1, 2, 2, 2, 2] \<and>
   remap fixture [10, 997, 10] ''A'' ''A'' = Inr [10, 997, 10]"
proof -
  let ?m = "[0, 1, 2, 2, 2, 2, 1, 2, 2, 2, 2] :: nat list"
  have m: "mappings fixture ''A'' = Some ?m"
    by (simp add: fixture_def fixture_mappings_def)
  have range: "\<forall>v\<in>set ?m. v < length (id_col fixture)"
    by (simp add: fixture_def)
  have c10: "\<exists>p. p < length ?m \<and> p < length (id_col fixture) \<and>
               id_col fixture ! p = 10 \<and> id_col fixture ! (?m ! p) = 10"
    by (rule exI[of _ 2]) (simp add: fixture_def)
  have c997: "\<exists>p. p < length ?m \<and> p < length (id_col fixture) \<and>
               id_col fixture ! p = 997 \<and> id_col fixture ! (?m ! p) = 997"
    by (rule exI[of _ 1]) (simp add: fixture_def)
  have canon: "\<forall>x\<in>set [10, 997, 10]. \<exists>p. p < length ?m \<and> p < length (id_col fixture) \<and>
                  id_col fixture ! p = x \<and> id_col fixture ! (?m ! p) = x"
    using c10 c997 by simp
  from remap_same_scheme_identity[OF m range canon] m show ?thesis by simp
qed

section \<open>Validation and symmetrization of a scheme\<close>

lemma symmetrize_uminus: "symmetrize (map uminus S) = symmetrize S"
  unfolding symmetrize_def by (rule np_unique_cong) (auto simp: image_iff)

lemma symmetrize_abs: "symmetrize (map abs S) = symmetrize S"
  unfolding symmetrize_def
proof (rule np_unique_cong)
  have pair: "\<And>x::int. {- \<bar>x\<bar>, \<bar>x\<bar>} = {- x, x}" by auto
  have "set (map uminus (map abs S) @ map abs S) = (\<Union>x\<in>set S. {- \<bar>x\<bar>, \<bar>x\<bar>})"
    by auto
  also have "\<dots> = (\<Union>x\<in>set S. {- x, x})" by (simp only: pair)
  also have "\<dots> = set (map uminus S @ S)" by auto
  finally show "set (map uminus (map abs S) @ map abs S) = set (map uminus S @ S)" .
qed

lemma set_symmetrize: "set (symmetrize S) = set S \<union> uminus ` set S"
  by (auto simp: symmetrize_def)

text \<open>
  Claim C10. The builder sees its argument only through the symmetrized id set, so
  building from \<open>S\<close>, from \<open>-S\<close> or from the absolute values of \<open>S\<close> gives the same
  result, for either value of the \<open>lateralize\<close> flag.
\<close>

theorem mapping_sign_invariant:
  "mapping_from_regions_list br (map uminus S) lateralize
     = mapping_from_regions_list br S lateralize \<and>
   mapping_from_regions_list br (map abs S) lateralize
     = mapping_from_regions_list br S lateralize"
  by (simp add: mapping_from_regions_list_def symmetrize_uminus symmetrize_abs)

text \<open>
  Claim C6. When some id of the scheme, or its negation, is not an id of the store, the
  \<open>assert\<close> fails: the builder returns the assertion error and no array, whatever the
  \<open>lateralize\<close> flag; the model is a function, so every attempt gives this same result.
\<close>

theorem mapping_rejects_unknown_ids:
  assumes "x \<in> set S" and "x \<notin> set (id_col br) \<or> - x \<notin> set (id_col br)"
  shows "mapping_from_regions_list br S lateralize = Inl AssertionError"
proof -
  have "x \<in> set (symmetrize S)" "- x \<in> set (symmetrize S)"
    using assms(1) by (auto simp: set_symmetrize)
  with assms(2) have "\<not> list_all (\<lambda>b. b) (np_isin (symmetrize S) (id_col br))"
    by (auto simp: np_isin_def list_all_iff)
  then show ?thesis by (simp add: mapping_from_regions_list_def Let_def)
qed

theorem mapping_rejects_unknown_ids_witness:
  "(10::int) \<in> set [10, 11] \<and> - 10 \<in> set (id_col fixture) \<and>
   (11::int) \<in> set [10, 11] \<and> 11 \<notin> set (id_col fixture) \<and>
   mapping_from_regions_list fixture [10, 11] True = Inl AssertionError \<and>
   mapping_from_regions_list fixture [10, 11] False = Inl AssertionError"
proof -
  have a: "(11::int) \<in> set [10, 11]" by simp
  have b: "11 \<notin> set (id_col fixture) \<or> - 11 \<notin> set (id_col fixture)"
    by (simp add: fixture_def)
  from mapping_rejects_unknown_ids[OF a b] show ?thesis by (simp add: fixture_def)
qed

section \<open>Tree navigation: rejection and termination\<close>

lemma nav_step_invalid_direction:
  assumes "direction \<noteq> ''down''" and "direction \<noteq> ''up''"
  shows "nav_step br ids direction (NavLoop indices count) = NavRaise InvalidDirection"
  using assms by (simp add: nav_step_def closure_step_def)

lemma nav_run_step: "nav_run br ids d (nav_step br ids d s) = nav_run br ids d s"
  by (cases s) (simp_all add: nav_step_def)

lemma nav_run_funpow: "nav_run br ids d ((nav_step br ids d ^^ j) s) = nav_run br ids d s"
  by (induction j) (simp_all add: nav_run_step)

lemma length_ismember_lia [simp]: "length (ismember_lia a b) = length a"
  by (simp add: ismember_lia_def np_isin_def)

lemma closure_step_total:
  assumes "wf_regions br" and "direction = ''down'' \<or> direction = ''up''"
    and "length indices = length (id_col br)"
  shows "\<exists>r. closure_step br direction indices = Inr r"
  using assms
  by (auto simp: closure_step_def bool_idx_def bindE_def mask_ior_def wf_regions_def)

lemma mask_eq_of_same_count:
  "length r = length a \<Longrightarrow> (\<forall>j<length a. a ! j \<longrightarrow> r ! j) \<Longrightarrow> np_sum r = np_sum a \<Longrightarrow> r = a"
proof (induction a arbitrary: r)
  case Nil then show ?case by simp
next
  case (Cons x xs)
  then obtain y ys where r: "r = y # ys" by (cases r) auto
  have len: "length ys = length xs" using Cons.prems r by simp
  have mono: "\<forall>j<length xs. xs ! j \<longrightarrow> ys ! j" using Cons.prems(2) r by auto
  have xy: "x \<longrightarrow> y" using Cons.prems(2) r by auto
  have le: "np_sum xs \<le> np_sum ys" using np_sum_mono[OF len mono] .
  have "np_sum ys = np_sum xs \<and> y = x"
    using Cons.prems(3) r xy le by (auto simp: np_sum_def split: if_splits)
  with Cons.IH[OF len mono] r show ?case by simp
qed

lemma nav_loop_passes:
  assumes wf: "wf_regions br" and dir: "direction = ''down'' \<or> direction = ''up''"
  shows "length i = length (id_col br) \<Longrightarrow>
         \<exists>k M. k \<le> n_false i \<and> M 0 = i \<and>
           (\<forall>j\<le>k. (nav_step br ids direction ^^ j) (NavLoop i (np_sum i))
                       = NavLoop (M j) (np_sum (M j)) \<and>
                    length (M j) = length (id_col br)) \<and>
           (\<forall>j<k. (\<forall>p<length (id_col br). M j ! p \<longrightarrow> M (Suc j) ! p) \<and>
                    np_sum (M j) < np_sum (M (Suc j))) \<and>
           (nav_step br ids direction ^^ Suc k) (NavLoop i (np_sum i)) = NavDone (M k)"
proof (induction "n_false i" arbitrary: i rule: less_induct)
  case less
  let ?step = "nav_step br ids direction"
  obtain r where r: "closure_step br direction i = Inr r"
    using closure_step_total[OF wf dir less.prems] by blast
  have len: "length r = length i" and mono: "\<forall>j<length i. i ! j \<longrightarrow> r ! j"
    using closure_step_Inr[OF r] by auto
  have le: "np_sum i \<le> np_sum r" using np_sum_mono[OF len mono] .
  show ?case
  proof (cases "np_sum r = np_sum i")
    case True
    then have "r = i" using mask_eq_of_same_count[OF len mono] by simp
    then have "?step (NavLoop i (np_sum i)) = NavDone i"
      using r by (simp add: nav_step_def)
    then show ?thesis
      using less.prems by (intro exI[of _ 0] exI[of _ "\<lambda>_. i"]) simp
  next
    case False
    then have lt: "np_sum i < np_sum r" using le by simp
    have "n_false r + np_sum r = n_false i + np_sum i"
      using len by (simp add: n_false_np_sum)
    then have dec: "n_false r < n_false i" using lt by simp
    have lenr: "length r = length (id_col br)" using len less.prems by simp
    from less.hyps[OF dec lenr] obtain k M where
      k: "k \<le> n_false r" and M0: "M 0 = r"
      and loop: "\<forall>j\<le>k. (?step ^^ j) (NavLoop r (np_sum r)) = NavLoop (M j) (np_sum (M j)) \<and>
                    length (M j) = length (id_col br)"
      and grow: "\<forall>j<k. (\<forall>p<length (id_col br). M j ! p \<longrightarrow> M (Suc j) ! p) \<and>
                    np_sum (M j) < np_sum (M (Suc j))"
      and fin: "(?step ^^ Suc k) (NavLoop r (np_sum r)) = NavDone (M k)"
      by blast
    have first: "?step (NavLoop i (np_sum i)) = NavLoop r (np_sum r)"
      using r False by (auto simp: nav_step_def)
    define M' where "M' = (\<lambda>j. case j of 0 \<Rightarrow> i | Suc j' \<Rightarrow> M j')"
    have pow: "(?step ^^ Suc j) (NavLoop i (np_sum i)) = (?step ^^ j) (NavLoop r (np_sum r))" for j
      using first by (simp add: funpow_swap1)
    have 1: "Suc k \<le> n_false i" using k dec by simp
    have 2: "M' 0 = i" by (simp add: M'_def)
    have 3: "(?step ^^ j) (NavLoop i (np_sum i)) = NavLoop (M' j) (np_sum (M' j)) \<and>
             length (M' j) = length (id_col br)" if "j \<le> Suc k" for j
    proof (cases j)
      case 0 then show ?thesis using less.prems by (simp add: M'_def)
    next
      case (Suc j')
      then have "j' \<le> k" using that by simp
      with loop pow[of j'] Suc show ?thesis by (simp add: M'_def)
    qed
    have 4: "(\<forall>p<length (id_col br). M' j ! p \<longrightarrow> M' (Suc j) ! p) \<and>
             np_sum (M' j) < np_sum (M' (Suc j))" if "j < Suc k" for j
    proof (cases j)
      case 0 then show ?thesis using mono lt M0 less.prems by (simp add: M'_def)
    next
      case (Suc j')
      then have "j' < k" using that by simp
      with grow Suc show ?thesis by (simp add: M'_def)
    qed
    have 5: "(?step ^^ Suc (Suc k)) (NavLoop i (np_sum i)) = NavDone (M' (Suc k))"
      using pow[of "Suc k"] fin by (simp add: M'_def)
    show ?thesis
      using 1 2 3 4 5 by (intro exI[of _ "Suc k"] exI[of _ M']) blast
  qed
qed

text \<open>
  Claim C3 says that an invalid direction is rejected before any work on the selection
  mask begins. In the code the test of \<open>direction\<close> is the last branch inside the loop
  body; the two statements before the loop have already computed the initial mask and its
  count. On the small table with direction \<open>sideways\<close>, the first step from the entry of
  the method reaches the loop head with the mask of the seed computed; it does not raise.
\<close>

theorem navigate_invalid_direction_counterexample:
  "nav_step fixture [40] ''sideways'' NavStart =
     NavLoop [False, False, False, False, False, True, False, False, False, False, False] 1 \<and>
   nav_step fixture [40] ''sideways'' NavStart \<noteq> NavRaise InvalidDirection"
  by (simp add: nav_step_def ismember_lia_def np_isin_def np_sum_def fixture_def)

text \<open>
  Claim C3, amended: for every seed id set and every direction other than \<open>up\<close> and
  \<open>down\<close>, \<open>_navigate_tree\<close> fails with the invalid-direction error and returns no
  partial result. The rejection happens in the first pass of the loop: the initial mask
  and its count are computed first, and the loop body raises whatever the mask is, before
  any closure step is applied.
\<close>

theorem navigate_invalid_direction_rejected:
  assumes "direction \<noteq> ''down''" and "direction \<noteq> ''up''"
  shows "navigate_tree br ids direction = Inl InvalidDirection \<and>
         nav_step br ids direction NavStart
           = NavLoop (ismember_lia (id_col br) ids) (np_sum (ismember_lia (id_col br) ids)) \<and>
         nav_step br ids direction (NavLoop indices count) = NavRaise InvalidDirection"
proof -
  have start: "nav_step br ids direction NavStart
           = NavLoop (ismember_lia (id_col br) ids) (np_sum (ismember_lia (id_col br) ids))"
    by (simp add: nav_step_def Let_def)
  have "nav_run br ids direction NavStart = Inl InvalidDirection"
    by (simp add: start nav_step_invalid_direction[OF assms])
  then show ?thesis
    using start nav_step_invalid_direction[OF assms]
    by (simp add: navigate_tree_def bindE_def)
qed

theorem navigate_invalid_direction_rejected_witness:
  "''sideways'' \<noteq> ''down'' \<and> ''sideways'' \<noteq> ''up'' \<and>
   navigate_tree fixture [40] ''sideways'' = Inl InvalidDirection \<and>
   nav_step fixture [40] ''sideways'' (NavLoop [True] 1) = NavRaise InvalidDirection"
proof -
  have a: "''sideways'' \<noteq> ''down''" and b: "''sideways'' \<noteq> ''up''" by simp_all
  from navigate_invalid_direction_rejected[OF a b, of fixture "[40]" "[True]" 1] a b
  show ?thesis by simp
qed

text \<open>
  Claim C4. For a store whose columns have one length and a direction in
  \<open>{up, down}\<close>, the loop terminates. There are \<open>k \<le> n\<close> (the store size) and masks
  \<open>M 0, \<dots>, M k\<close>, all of length \<open>n\<close> (so every count is at most \<open>n\<close>), such that the loop
  head is reached with mask \<open>M j\<close> and count \<open>np_sum (M j)\<close> after \<open>j\<close> passes; each
  pass before the last keeps every selected position and strictly raises the count; pass
  \<open>k + 1\<close> is the first that leaves the count unchanged, and it is the \<open>break\<close>; the
  run from the entry of the method returns \<open>M k\<close>.
\<close>

theorem navigate_loop_terminates:
  assumes "wf_regions br" and "direction = ''down'' \<or> direction = ''up''"
  shows "\<exists>k M. k \<le> length (id_col br) \<and>
           M 0 = ismember_lia (id_col br) ids \<and>
           (\<forall>j\<le>k. (nav_step br ids direction ^^ Suc j) NavStart
                       = NavLoop (M j) (np_sum (M j)) \<and>
                    length (M j) = length (id_col br) \<and>
                    np_sum (M j) \<le> length (id_col br)) \<and>
           (\<forall>j<k. (\<forall>p<length (id_col br). M j ! p \<longrightarrow> M (Suc j) ! p) \<and>
                    np_sum (M j) < np_sum (M (Suc j))) \<and>
           (nav_step br ids direction ^^ (k + 2)) NavStart = NavDone (M k) \<and>
           nav_run br ids direction NavStart = Inr (M k)"
proof -
  let ?step = "nav_step br ids direction"
  let ?i = "ismember_lia (id_col br) ids"
  have start: "?step NavStart = NavLoop ?i (np_sum ?i)"
    by (simp add: nav_step_def Let_def)
  have pow: "(?step ^^ Suc j) NavStart = (?step ^^ j) (NavLoop ?i (np_sum ?i))" for j
    using start by (simp add: funpow_swap1)
  have leni: "length ?i = length (id_col br)" by simp
  from nav_loop_passes[OF assms leni, of ids] obtain k M where
    k: "k \<le> n_false ?i" and M0: "M 0 = ?i"
    and loop: "\<forall>j\<le>k. (?step ^^ j) (NavLoop ?i (np_sum ?i)) = NavLoop (M j) (np_sum (M j)) \<and>
                  length (M j) = length (id_col br)"
    and grow: "\<forall>j<k. (\<forall>p<length (id_col br). M j ! p \<longrightarrow> M (Suc j) ! p) \<and>
                  np_sum (M j) < np_sum (M (Suc j))"
    and fin: "(?step ^^ Suc k) (NavLoop ?i (np_sum ?i)) = NavDone (M k)"
    by blast
  have 1: "k \<le> length (id_col br)"
    using k n_false_np_sum[of ?i] by simp
  have 3: "\<forall>j\<le>k. (?step ^^ Suc j) NavStart = NavLoop (M j) (np_sum (M j)) \<and>
             length (M j) = length (id_col br) \<and> np_sum (M j) \<le> length (id_col br)"
  proof (intro allI impI)
    fix j assume "j \<le> k"
    with loop have a: "(?step ^^ j) (NavLoop ?i (np_sum ?i)) = NavLoop (M j) (np_sum (M j))"
      and b: "length (M j) = length (id_col br)" by auto
    have "np_sum (M j) \<le> length (id_col br)"
      using n_false_np_sum[of "M j"] b by simp
    with a b pow[of j]
    show "(?step ^^ Suc j) NavStart = NavLoop (M j) (np_sum (M j)) \<and>
             length (M j) = length (id_col br) \<and> np_sum (M j) \<le> length (id_col br)"
      by simp
  qed
  have 5: "(?step ^^ (k + 2)) NavStart = NavDone (M k)"
    using pow[of "Suc k"] fin by simp
  have "nav_run br ids direction NavStart
          = nav_run br ids direction ((?step ^^ (k + 2)) NavStart)"
    by (simp only: nav_run_funpow)
  then have 6: "nav_run br ids direction NavStart = Inr (M k)"
    by (simp only: 5 nav_run.simps)
  show ?thesis
    using 1 M0 3 grow 5 6 by (intro exI[of _ k] exI[of _ M]) blast
qed

theorem navigate_loop_terminates_witness:
  "wf_regions fixture \<and>
   nav_run fixture [10] ''down'' NavStart
     = Inr [False, False, True, True, True, True, False, False, False, False, False] \<and>
   (\<exists>k M. k \<le> length (id_col fixture) \<and>
      (nav_step fixture [10] ''down'' ^^ (k + 2)) NavStart = NavDone (M k) \<and>
      nav_run fixture [10] ''down'' NavStart = Inr (M k))"
proof -
  have wf: "wf_regions fixture" by (simp add: wf_regions_def fixture_def)
  have dir: "''down'' = ''down'' \<or> ''down'' = ''up''" by simp
  have ev: "nav_run fixture [10] ''down'' NavStart
     = Inr [False, False, True, True, True, True, False, False, False, False, False]"
    by (simp add: nav_step_def closure_step_def bindE_def bool_idx_def mask_ior_def
        mask_select_def ismember_lia_def np_isin_def np_sum_def fixture_def)
  from navigate_loop_terminates[OF wf dir, of "[10]"] wf ev show ?thesis by blast
qed

section \<open>What the downward closure computes\<close>

lemma reach_down_less: "p \<in> reach_down br seeds \<Longrightarrow> p < length (id_col br)"
  by (induction rule: reach_down.induct) auto

lemma set_mask_select:
  "length m = length xs \<Longrightarrow> set (mask_select xs m) = {xs ! q |q. q < length xs \<and> m ! q}"
  unfolding mask_select_def
  by (force simp: set_zip image_iff)

lemma closure_step_down:
  assumes "wf_regions br" and "length a = length (id_col br)"
  shows "closure_step br ''down'' a =
           Inr (map (\<lambda>p. a ! p \<or> (\<exists>q<length (id_col br). a ! q \<and>
                                     parent br ! p = Some (id_col br ! q)))
                    [0..<length (id_col br)])"
proof -
  let ?n = "length (id_col br)"
  let ?b = "ismember_lia (parent br) (map Some (mask_select (id_col br) a))"
  have lenp: "length (parent br) = ?n" using assms(1) by (simp add: wf_regions_def)
  have b: "?b ! p \<longleftrightarrow> (\<exists>q<?n. a ! q \<and> parent br ! p = Some (id_col br ! q))"
    if "p < ?n" for p
    using that lenp set_mask_select[of a "id_col br"] assms(2)
    by (auto simp: ismember_lia_def np_isin_def image_iff)
  have "map2 (\<or>) a ?b = map (\<lambda>p. a ! p \<or> (\<exists>q<?n. a ! q \<and>
                                     parent br ! p = Some (id_col br ! q))) [0..<?n]"
    using assms(2) lenp b by (intro nth_equalityI) auto
  then show ?thesis
    using assms(2) lenp
    by (simp add: closure_step_def bool_idx_def bindE_def mask_ior_def)
qed

lemma nav_run_loop_invariant:
  assumes wf: "wf_regions br" and dir: "direction = ''down'' \<or> direction = ''up''"
    and pres: "\<And>a r. length a = length (id_col br) \<Longrightarrow> P a \<Longrightarrow>
                 closure_step br direction a = Inr r \<Longrightarrow> P r"
  shows "length i = length (id_col br) \<Longrightarrow> P i \<Longrightarrow>
         \<exists>m. nav_run br ids direction (NavLoop i (np_sum i)) = Inr m \<and>
             length m = length (id_col br) \<and> P m \<and> closure_step br direction m = Inr m"
proof (induction "n_false i" arbitrary: i rule: less_induct)
  case less
  obtain r where r: "closure_step br direction i = Inr r"
    using closure_step_total[OF wf dir less.prems(1)] by blast
  have len: "length r = length i" and mono: "\<forall>j<length i. i ! j \<longrightarrow> r ! j"
    using closure_step_Inr[OF r] by auto
  have Pr: "P r" using pres[OF less.prems r] .
  show ?case
  proof (cases "np_sum r = np_sum i")
    case True
    then have "r = i" using mask_eq_of_same_count[OF len mono] by simp
    then show ?thesis using r less.prems by (simp add: nav_step_def)
  next
    case False
    then have lt: "np_sum i < np_sum r" using np_sum_mono[OF len mono] by simp
    have "n_false r + np_sum r = n_false i + np_sum i"
      using len by (simp add: n_false_np_sum)
    then have dec: "n_false r < n_false i" using lt by simp
    have lenr: "length r = length (id_col br)" using len less.prems by simp
    have "nav_run br ids direction (NavLoop i (np_sum i))
            = nav_run br ids direction (NavLoop r (np_sum r))"
      using r False by (auto simp: nav_step_def)
    with less.hyps[OF dec lenr Pr] show ?thesis by simp
  qed
qed

lemma nav_run_down_reach:
  assumes wf: "wf_regions br"
  shows "\<exists>m. nav_run br seeds ''down'' NavStart = Inr m \<and> length m = length (id_col br) \<and>
             (\<forall>p<length (id_col br). m ! p \<longleftrightarrow> p \<in> reach_down br seeds)"
proof -
  let ?n = "length (id_col br)"
  let ?i = "ismember_lia (id_col br) seeds"
  define P where "P = (\<lambda>a. (\<forall>p<?n. ?i ! p \<longrightarrow> a ! p) \<and> (\<forall>p<?n. a ! p \<longrightarrow> p \<in> reach_down br seeds))"
  have i_nth: "?i ! p \<longleftrightarrow> id_col br ! p \<in> set seeds" if "p < ?n" for p
    using that by (simp add: ismember_lia_def np_isin_def)
  have Pi: "P ?i"
    unfolding P_def using i_nth by (auto intro: reach_down.seed)
  have pres: "P r" if la: "length a = ?n" and Pa: "P a"
    and st: "closure_step br ''down'' a = Inr r" for a r
  proof -
    have r: "r = map (\<lambda>p. a ! p \<or> (\<exists>q<?n. a ! q \<and> parent br ! p = Some (id_col br ! q))) [0..<?n]"
      using st closure_step_down[OF wf la] by simp
    show ?thesis
      unfolding P_def
    proof (intro conjI allI impI)
      fix p assume "p < ?n" "?i ! p"
      then show "r ! p" using Pa r by (simp add: P_def)
    next
      fix p assume p: "p < ?n" and rp: "r ! p"
      then consider "a ! p" | q where "q < ?n" "a ! q" "parent br ! p = Some (id_col br ! q)"
        using r by auto
      then show "p \<in> reach_down br seeds"
      proof cases
        case 1 then show ?thesis using Pa p by (simp add: P_def)
      next
        case 2
        then have "q \<in> reach_down br seeds" using Pa by (simp add: P_def)
        then show ?thesis using 2 p by (auto intro: reach_down.child)
      qed
    qed
  qed
  have dir: "''down'' = ''down'' \<or> ''down'' = ''up''" by simp
  from nav_run_loop_invariant[OF wf dir, of P ?i seeds] pres Pi
  obtain m where run: "nav_run br seeds ''down'' (NavLoop ?i (np_sum ?i)) = Inr m"
    and lm: "length m = ?n" and Pm: "P m" and fp: "closure_step br ''down'' m = Inr m"
    by auto
  have mfix: "m = map (\<lambda>p. m ! p \<or> (\<exists>q<?n. m ! q \<and> parent br ! p = Some (id_col br ! q))) [0..<?n]"
    using fp closure_step_down[OF wf lm] by simp
  have sup: "m ! p" if "p \<in> reach_down br seeds" for p
    using that
  proof (induction rule: reach_down.induct)
    case (seed p)
    then show ?case using Pm i_nth by (simp add: P_def)
  next
    case (child q p)
    have "q < ?n" using child.hyps(1) by (rule reach_down_less)
    then have "\<exists>q<?n. m ! q \<and> parent br ! p = Some (id_col br ! q)"
      using child by blast
    then have "(map (\<lambda>p. m ! p \<or> (\<exists>q<?n. m ! q \<and> parent br ! p = Some (id_col br ! q))) [0..<?n]) ! p"
      using child.hyps(2) by simp
    with mfix show ?case by simp
  qed
  have "nav_run br seeds ''down'' NavStart = Inr m"
    using run by (simp add: nav_step_def Let_def)
  moreover have "\<forall>p<?n. m ! p \<longleftrightarrow> p \<in> reach_down br seeds"
    using Pm sup by (auto simp: P_def)
  ultimately show ?thesis using lm by blast
qed

section \<open>The mapping builder\<close>

lemma descendants_ids:
  assumes wf: "wf_regions br"
  shows "\<exists>m d. nav_run br seeds ''down'' NavStart = Inr m \<and> length m = length (id_col br) \<and>
           (\<forall>p<length (id_col br). m ! p \<longleftrightarrow> p \<in> reach_down br seeds) \<and>
           descendants br seeds = Inr d \<and> id_col d = mask_select (id_col br) m"
proof -
  obtain m where run: "nav_run br seeds ''down'' NavStart = Inr m"
    and lm: "length m = length (id_col br)"
    and r: "\<forall>p<length (id_col br). m ! p \<longleftrightarrow> p \<in> reach_down br seeds"
    using nav_run_down_reach[OF wf] by blast
  have sub: "set (mask_select (id_col br) m) \<subseteq> set (id_col br)"
    using set_mask_select[OF lm] by auto
  have "descendants br seeds = get br (mask_select (id_col br) m)"
    using run lm by (simp add: descendants_def navigate_tree_def bindE_def bool_idx_def)
  with get_present[OF wf sub] run lm r show ?thesis by auto
qed

lemma mask_select_mem:
  assumes "distinct xs" and "length m = length xs" and "p < length xs"
  shows "xs ! p \<in> set (mask_select xs m) \<longleftrightarrow> m ! p"
  using assms set_mask_select[OF assms(2)] by (auto simp: nth_eq_iff_index_eq)

lemma in_descendants_reach:
  assumes "wf_regions br" and "distinct (id_col br)" and "p < length (id_col br)"
  shows "in_descendants br q p \<longleftrightarrow> p \<in> reach_down br [id_col br ! q]"
proof -
  obtain m d where lm: "length m = length (id_col br)"
    and r: "\<forall>p<length (id_col br). m ! p \<longleftrightarrow> p \<in> reach_down br [id_col br ! q]"
    and d: "descendants br [id_col br ! q] = Inr d" "id_col d = mask_select (id_col br) m"
    using descendants_ids[OF assms(1), of "[id_col br ! q]"] by blast
  show ?thesis
    using d r assms(3) mask_select_mem[OF assms(2) lm assms(3)]
    by (simp add: in_descendants_def)
qed

lemma in_descendants_self:
  assumes "wf_regions br" and "distinct (id_col br)" and "p < length (id_col br)"
  shows "in_descendants br p p"
  using in_descendants_reach[OF assms] assms(3) by (simp add: reach_down.seed)

lemma set_intersect1d_ind1_mask:
  assumes "distinct xs" and "length m = length xs"
  shows "set (intersect1d_ind1 xs (mask_select xs m)) = {p. p < length xs \<and> m ! p}"
proof -
  have "set (intersect1d_ind1 xs (mask_select xs m))
          = first_index xs ` {xs ! q |q. q < length xs \<and> m ! q}"
    using set_mask_select[OF assms(2)] by (auto simp: intersect1d_ind1_def)
  also have "\<dots> = {p. p < length xs \<and> m ! p}"
    using first_index_nth[OF assms(1)] by (auto simp: image_iff) force
  finally show ?thesis .
qed

lemma length_assign_all [simp]: "length (assign_all mapind idx v) = length mapind"
  unfolding assign_all_def by (induction idx arbitrary: mapind) auto

lemma assign_all_nth:
  "p < length mapind \<Longrightarrow>
   assign_all mapind idx v ! p = (if p \<in> set idx then v else mapind ! p)"
  unfolding assign_all_def
  by (induction idx arbitrary: mapind) (auto simp: nth_list_update)

lemma length_assign_self [simp]: "length (assign_self mapind idx) = length mapind"
  unfolding assign_self_def by (induction idx arbitrary: mapind) auto

lemma assign_self_nth:
  "p < length mapind \<Longrightarrow>
   assign_self mapind idx ! p = (if p \<in> set idx then p else mapind ! p)"
  unfolding assign_self_def
  by (induction idx arbitrary: mapind) (auto simp: nth_list_update)

lemma mapping_step_result:
  assumes wf: "wf_regions br" and dist: "distinct (id_col br)"
    and len: "length mapind = length (id_col br)"
  shows "\<exists>M. mapping_step br iid mapind i = Inr M \<and> length M = length (id_col br) \<and>
           (\<forall>p<length (id_col br).
              M ! p = (if in_descendants br (iid ! i) p then iid ! i else mapind ! p))"
proof -
  let ?x = "id_col br ! (iid ! i)"
  obtain m d where lm: "length m = length (id_col br)"
    and d: "descendants br [?x] = Inr d" "id_col d = mask_select (id_col br) m"
    using descendants_ids[OF wf, of "[?x]"] by blast
  let ?M = "assign_all mapind (intersect1d_ind1 (id_col br) (id_col d)) (iid ! i)"
  have step: "mapping_step br iid mapind i = Inr ?M"
    using d by (simp add: mapping_step_def bindE_def)
  have "?M ! p = (if in_descendants br (iid ! i) p then iid ! i else mapind ! p)"
    if p: "p < length (id_col br)" for p
  proof -
    have "in_descendants br (iid ! i) p \<longleftrightarrow> m ! p"
      using d mask_select_mem[OF dist lm p] by (simp add: in_descendants_def)
    moreover have "p \<in> set (intersect1d_ind1 (id_col br) (id_col d)) \<longleftrightarrow> m ! p"
      using set_intersect1d_ind1_mask[OF dist lm] d p by simp
    ultimately show ?thesis using p len by (simp add: assign_all_nth)
  qed
  with step len show ?thesis by simp
qed

lemma mapping_loop_result:
  assumes wf: "wf_regions br" and dist: "distinct (id_col br)"
  shows "length mapind = length (id_col br) \<Longrightarrow>
         \<exists>M. mapping_loop br iid mapind ord = Inr M \<and> length M = length (id_col br) \<and>
           (\<forall>p<length (id_col br).
              M ! p = (case filter (\<lambda>i. in_descendants br (iid ! i) p) ord of
                         [] \<Rightarrow> mapind ! p
                       | x # xs \<Rightarrow> iid ! last (x # xs)))"
proof (induction ord arbitrary: mapind)
  case Nil
  then show ?case by simp
next
  case (Cons i rest)
  obtain M1 where s: "mapping_step br iid mapind i = Inr M1"
    and l1: "length M1 = length (id_col br)"
    and n1: "\<forall>p<length (id_col br).
              M1 ! p = (if in_descendants br (iid ! i) p then iid ! i else mapind ! p)"
    using mapping_step_result[OF wf dist Cons.prems] by blast
  obtain M where r: "mapping_loop br iid M1 rest = Inr M"
    and l: "length M = length (id_col br)"
    and n: "\<forall>p<length (id_col br).
              M ! p = (case filter (\<lambda>i. in_descendants br (iid ! i) p) rest of
                         [] \<Rightarrow> M1 ! p
                       | x # xs \<Rightarrow> iid ! last (x # xs))"
    using Cons.IH[OF l1] by blast
  have "mapping_loop br iid mapind (i # rest) = Inr M"
    using s r by (simp add: bindE_def)
  moreover have "M ! p = (case filter (\<lambda>i. in_descendants br (iid ! i) p) (i # rest) of
                         [] \<Rightarrow> mapind ! p
                       | x # xs \<Rightarrow> iid ! last (x # xs))"
    if p: "p < length (id_col br)" for p
    using n n1 p by (auto split: list.splits)
  ultimately show ?case using l by blast
qed

text \<open>
  The order of the members' loop is used below only through these two facts: it visits
  every member, and levels do not decrease along it. They hold for any order that
  \<open>np.argsort\<close> may return for equal levels.
\<close>

lemma np_argsort_set: "set (np_argsort ks) = {0..<length ks}"
proof -
  have "set (np_argsort ks) = snd ` set (zip ks [0..<length ks])"
    by (simp add: np_argsort_def)
  also have "\<dots> = set (map snd (zip ks [0..<length ks]))"
    by (simp only: set_map)
  also have "\<dots> = {0..<length ks}"
    by simp
  finally show ?thesis .
qed

lemma np_argsort_sorted: "sorted (map (\<lambda>i. ks ! i) (np_argsort ks))"
proof -
  let ?L = "sort_key fst (zip ks [0..<length ks])"
  have "\<forall>e\<in>set ?L. ks ! snd e = fst e"
    by (auto simp: set_zip)
  then have eq: "map (\<lambda>e. ks ! snd e) ?L = map fst ?L"
    by (intro map_cong) auto
  show ?thesis
    unfolding np_argsort_def map_map comp_def eq by (rule sorted_sort_key)
qed

lemma sorted_map_le_last:
  "sorted (map f xs) \<Longrightarrow> x \<in> set xs \<Longrightarrow> f x \<le> f (last xs)"
  by (induction xs) auto

lemma set_np_where: "set (np_where m) = {p. p < length m \<and> m ! p}"
  by (auto simp: np_where_def)

lemma set_scheme_members:
  "set (scheme_members br S)
     = {p. p < length (id_col br) \<and> id_col br ! p \<in> set (symmetrize S)}"
  by (auto simp: scheme_members_def set_np_where ismember_lia_def np_isin_def)

lemma validation_passes:
  "list_all (\<lambda>b. b) (np_isin xs ys) \<longleftrightarrow> set xs \<subseteq> set ys"
  by (auto simp: np_isin_def list_all_iff)

text \<open>The array before the delateralization step, when the validation passes.\<close>

lemma mapping_lateralized_result:
  assumes wf: "wf_regions br" and dist: "distinct (id_col br)"
    and valid: "set (symmetrize S) \<subseteq> set (id_col br)" and ne: "id_col br \<noteq> []"
  shows "\<exists>M. mapping_from_regions_list br S True = Inr M \<and>
           length M = length (id_col br) \<and> M ! 0 = I_VOID \<and>
           (\<forall>p<length (id_col br). 0 < p \<longrightarrow>
              ((\<forall>q\<in>set (scheme_members br S). \<not> in_descendants br q p) \<longrightarrow> M ! p = I_ROOT) \<and>
              ((\<exists>q\<in>set (scheme_members br S). in_descendants br q p) \<longrightarrow>
                 M ! p \<in> set (scheme_members br S) \<and> in_descendants br (M ! p) p \<and>
                 (\<forall>q\<in>set (scheme_members br S). in_descendants br q p \<longrightarrow>
                    level br ! q \<le> level br ! (M ! p)))) \<and>
           (\<forall>p<length (id_col br).
              M ! p \<in> set (scheme_members br S) \<or> M ! p = I_ROOT \<or> M ! p = I_VOID) \<and>
           mapping_from_regions_list br S False
             = take_idx M (ismember_locb (map abs (id_col br)) (id_col br))"
proof -
  let ?n = "length (id_col br)"
  let ?iid = "scheme_members br S"
  let ?D = "\<lambda>p i. in_descendants br (?iid ! i) p"
  have iid_lt: "\<forall>q\<in>set ?iid. q < ?n" by (simp add: set_scheme_members)
  have lenl: "length (level br) = ?n" using wf by (simp add: wf_regions_def)
  let ?levels = "map (\<lambda>q. level br ! q) ?iid"
  have lv: "take_idx (level br) ?iid = Inr ?levels"
    using iid_lt lenl by (intro take_idx_Inr) simp
  let ?ord = "np_argsort ?levels"
  let ?m1 = "assign_self (replicate ?n I_ROOT) ?iid"
  have l1: "length ?m1 = ?n" by simp
  obtain M2 where loop: "mapping_loop br ?iid ?m1 ?ord = Inr M2"
    and l2: "length M2 = ?n"
    and n2: "\<forall>p<?n. M2 ! p = (case filter (?D p) ?ord of
                         [] \<Rightarrow> ?m1 ! p
                       | x # xs \<Rightarrow> ?iid ! last (x # xs))"
    using mapping_loop_result[OF wf dist l1, of ?iid ?ord] by blast
  have M2ne: "M2 \<noteq> []" using l2 ne by auto
  let ?M = "M2[0 := I_VOID]"
  have res: "mapping_from_regions_list br S lateralize =
               (if \<not> lateralize
                then take_idx ?M (ismember_locb (map abs (id_col br)) (id_col br))
                else Inr ?M)" for lateralize
    using valid lv loop M2ne
    by (simp add: mapping_from_regions_list_def Let_def validation_passes bindE_def
        scheme_members_def)
  have m1: "?m1 ! p = (if p \<in> set ?iid then p else I_ROOT)" if "p < ?n" for p
    using that by (simp add: assign_self_nth)
  have ord_set: "set ?ord = {0..<length ?iid}" by (simp add: np_argsort_set)
  have mem_D: "(\<exists>q\<in>set ?iid. in_descendants br q p) \<longleftrightarrow> filter (?D p) ?ord \<noteq> []" for p
  proof
    assume "\<exists>q\<in>set ?iid. in_descendants br q p"
    then obtain i where "i < length ?iid" "in_descendants br (?iid ! i) p"
      by (auto simp: in_set_conv_nth)
    then have "i \<in> set (filter (?D p) ?ord)" using ord_set by simp
    then show "filter (?D p) ?ord \<noteq> []" by (metis empty_iff empty_set)
  next
    assume "filter (?D p) ?ord \<noteq> []"
    then obtain i where "i \<in> set (filter (?D p) ?ord)"
      by (meson last_in_set)
    then have "i < length ?iid" "in_descendants br (?iid ! i) p" using ord_set by auto
    then show "\<exists>q\<in>set ?iid. in_descendants br q p"
      using nth_mem by blast
  qed
  have deep: "((\<forall>q\<in>set ?iid. \<not> in_descendants br q p) \<longrightarrow> M2 ! p = I_ROOT) \<and>
              ((\<exists>q\<in>set ?iid. in_descendants br q p) \<longrightarrow>
                 M2 ! p \<in> set ?iid \<and> in_descendants br (M2 ! p) p \<and>
                 (\<forall>q\<in>set ?iid. in_descendants br q p \<longrightarrow>
                    level br ! q \<le> level br ! (M2 ! p)))"
    if p: "p < ?n" for p
  proof (cases "filter (?D p) ?ord")
    case Nil
    then have none: "\<forall>q\<in>set ?iid. \<not> in_descendants br q p" using mem_D[of p] by simp
    then have "p \<notin> set ?iid" using in_descendants_self[OF wf dist p] by blast
    then have "M2 ! p = I_ROOT" using n2 p Nil m1 by simp
    with none show ?thesis by simp
  next
    case (Cons x xs)
    let ?xs = "filter (?D p) ?ord"
    let ?l = "last ?xs"
    have lin: "?l \<in> set ?xs" using Cons by (metis last_in_set list.discI)
    then have lD: "?D p ?l" and lord: "?l < length ?iid" using ord_set by auto
    have M2p: "M2 ! p = ?iid ! ?l" using n2 p Cons by simp
    have srt: "sorted (map (\<lambda>i. ?levels ! i) ?xs)"
      using np_argsort_sorted[of ?levels] by (rule sorted_filter)
    have maxl: "level br ! q \<le> level br ! (?iid ! ?l)"
      if q: "q \<in> set ?iid" "in_descendants br q p" for q
    proof -
      obtain i where i: "i < length ?iid" "?iid ! i = q"
        using q(1) by (auto simp: in_set_conv_nth)
      then have "i \<in> set ?xs" using q(2) ord_set by simp
      then have "?levels ! i \<le> ?levels ! ?l" using srt by (rule sorted_map_le_last[rotated])
      then show ?thesis using i lord by simp
    qed
    show ?thesis using M2p lD lord maxl by auto
  qed
  have vals: "M2 ! p \<in> set ?iid \<or> M2 ! p = I_ROOT" if p: "p < ?n" for p
  proof (cases "filter (?D p) ?ord")
    case Nil
    then show ?thesis using n2 p m1 by auto
  next
    case (Cons x xs)
    then have "last (filter (?D p) ?ord) \<in> set (filter (?D p) ?ord)"
      by (metis last_in_set list.discI)
    then have "last (filter (?D p) ?ord) < length ?iid" using ord_set by auto
    then show ?thesis using n2 p Cons by simp
  qed
  have pos: "0 < ?n" using ne by simp
  have M0: "?M ! 0 = I_VOID" using l2 pos by simp
  have Mp: "?M ! p = M2 ! p" if "0 < p" for p using that by simp
  have valsM: "?M ! p \<in> set ?iid \<or> ?M ! p = I_ROOT \<or> ?M ! p = I_VOID" if p: "p < ?n" for p
  proof (cases p)
    case 0 then show ?thesis using M0 by simp
  next
    case (Suc k) then show ?thesis using vals[OF p] by auto
  qed
  show ?thesis
  proof (intro exI[of _ ?M] conjI)
    show "mapping_from_regions_list br S True = Inr ?M" using res[of True] by simp
    show "length ?M = ?n" using l2 by simp
    show "?M ! 0 = I_VOID" by (rule M0)
    show "\<forall>p<?n. 0 < p \<longrightarrow>
              ((\<forall>q\<in>set ?iid. \<not> in_descendants br q p) \<longrightarrow> ?M ! p = I_ROOT) \<and>
              ((\<exists>q\<in>set ?iid. in_descendants br q p) \<longrightarrow>
                 ?M ! p \<in> set ?iid \<and> in_descendants br (?M ! p) p \<and>
                 (\<forall>q\<in>set ?iid. in_descendants br q p \<longrightarrow>
                    level br ! q \<le> level br ! (?M ! p)))"
      using deep Mp by simp
    show "\<forall>p<?n. ?M ! p \<in> set ?iid \<or> ?M ! p = I_ROOT \<or> ?M ! p = I_VOID"
      using valsM by blast
    show "mapping_from_regions_list br S False
            = take_idx ?M (ismember_locb (map abs (id_col br)) (id_col br))"
      using res[of False] by simp
  qed
qed

lemma delateralized_array:
  assumes len: "length M = length ids" and closed: "\<forall>x\<in>set ids. \<bar>x\<bar> \<in> set ids"
  shows "take_idx M (ismember_locb (map abs ids) ids)
           = Inr (map (\<lambda>x. M ! first_index ids \<bar>x\<bar>) ids)"
proof -
  have sub: "set (map abs ids) \<subseteq> set ids" using closed by auto
  have loc: "ismember_locb (map abs ids) ids = map (first_index ids) (map abs ids)"
    using sub by (rule ismember_locb_all)
  have "\<forall>i\<in>set (map (first_index ids) (map abs ids)). i < length M"
    using closed len by (auto intro: first_index_less)
  then have "take_idx M (map (first_index ids) (map abs ids))
               = Inr (map (\<lambda>i. M ! i) (map (first_index ids) (map abs ids)))"
    by (rule take_idx_Inr)
  then show ?thesis by (simp add: loc comp_def)
qed

text \<open>
  Claim C5 says that the array assigns every store position to the deepest member of the
  scheme whose descendant set contains it. With \<open>lateralize = False\<close> the last step of
  the builder reads every position through the position of its unsigned id, so a
  left-hemisphere position gets the representative of its right-hemisphere copy. On the
  small table with scheme \<open>{A}\<close> the members are at positions 2 (A) and 7 (left A);
  position 8 (left B) lies among the descendants of position 7 only, and the array
  assigns it to position 2.
\<close>

theorem mapping_deepest_member_counterexample:
  "scheme_members fixture [10] = [2, 7] \<and>
   mapping_from_regions_list fixture [10] False = Inr [0, 1, 2, 2, 2, 2, 1, 2, 2, 2, 2] \<and>
   in_descendants fixture 7 8 \<and> \<not> in_descendants fixture 2 8"
  by code_simp

lemma reach_down_no_parent:
  "p \<in> reach_down br seeds \<Longrightarrow> parent br ! p = None \<Longrightarrow> id_col br ! p \<in> set seeds"
  by (erule reach_down.cases) auto

text \<open>
  Claim C5, amended. Let the columns of the store have one length, its ids be distinct,
  and every id of the symmetrized scheme be an id of the store. With \<open>lateralize = True\<close>
  the builder returns an array \<open>M\<close> of the length of the store such that every position
  \<open>p\<close> that lies in the descendant set of some member is assigned to a member whose
  descendant set contains \<open>p\<close> and whose level is largest among such members (members
  are processed in ascending level order and later ones overwrite earlier ones); this holds
  for every \<open>p > 0\<close>, and for position 0 when its row has no parent (position 0 is set
  to \<open>I_VOID\<close> after the loop). With \<open>lateralize = False\<close> the builder returns \<open>M\<close>
  read through the position of the unsigned id: entry \<open>p\<close> is \<open>M\<close> at the position of
  \<open>\<bar>id p\<bar>\<close>. On the small table, scheme \<open>{A}\<close> sends A, B, C, D to A's position 2
  and the root row to the root's position 1; their left copies go to 7 and 1 when
  lateralized, to 2 and 1 otherwise.
\<close>

theorem mapping_deepest_member:
  assumes "wf_regions br" and "distinct (id_col br)"
    and "set (symmetrize S) \<subseteq> set (id_col br)" and "id_col br \<noteq> []"
  shows "(\<exists>M. mapping_from_regions_list br S True = Inr M \<and>
            length M = length (id_col br) \<and>
            (\<forall>p<length (id_col br). 0 < p \<or> parent br ! 0 = None \<longrightarrow>
               (\<exists>q\<in>set (scheme_members br S). in_descendants br q p) \<longrightarrow>
                 M ! p \<in> set (scheme_members br S) \<and> in_descendants br (M ! p) p \<and>
                 (\<forall>q\<in>set (scheme_members br S). in_descendants br q p \<longrightarrow>
                    level br ! q \<le> level br ! (M ! p))) \<and>
            ((\<forall>x\<in>set (id_col br). \<bar>x\<bar> \<in> set (id_col br)) \<longrightarrow>
               mapping_from_regions_list br S False
                 = Inr (map (\<lambda>x. M ! first_index (id_col br) \<bar>x\<bar>) (id_col br)))) \<and>
         mapping_from_regions_list fixture [10] True = Inr [0, 1, 2, 2, 2, 2, 1, 7, 7, 7, 7] \<and>
         mapping_from_regions_list fixture [10] False = Inr [0, 1, 2, 2, 2, 2, 1, 2, 2, 2, 2]"
proof -
  let ?n = "length (id_col br)"
  let ?mem = "set (scheme_members br S)"
  obtain M where M: "mapping_from_regions_list br S True = Inr M"
    and len: "length M = ?n" and M0: "M ! 0 = I_VOID"
    and deep: "\<forall>p<?n. 0 < p \<longrightarrow>
              ((\<forall>q\<in>?mem. \<not> in_descendants br q p) \<longrightarrow> M ! p = I_ROOT) \<and>
              ((\<exists>q\<in>?mem. in_descendants br q p) \<longrightarrow>
                 M ! p \<in> ?mem \<and> in_descendants br (M ! p) p \<and>
                 (\<forall>q\<in>?mem. in_descendants br q p \<longrightarrow>
                    level br ! q \<le> level br ! (M ! p)))"
    and unl: "mapping_from_regions_list br S False
             = take_idx M (ismember_locb (map abs (id_col br)) (id_col br))"
    using mapping_lateralized_result[OF assms] by blast
  have pos: "0 < ?n" using assms(4) by simp
  have only0: "q = 0" if q: "q \<in> ?mem" and d: "in_descendants br q 0"
    and np: "parent br ! 0 = None" for q
  proof -
    have qn: "q < ?n" using q by (simp add: set_scheme_members)
    have "0 \<in> reach_down br [id_col br ! q]"
      using d in_descendants_reach[OF assms(1,2) pos] by simp
    then have "id_col br ! 0 = id_col br ! q"
      using reach_down_no_parent[OF _ np] by fastforce
    then show ?thesis using assms(2) pos qn by (simp add: nth_eq_iff_index_eq)
  qed
  have zero: "M ! 0 \<in> ?mem \<and> in_descendants br (M ! 0) 0 \<and>
              (\<forall>q\<in>?mem. in_descendants br q 0 \<longrightarrow> level br ! q \<le> level br ! (M ! 0))"
    if np: "parent br ! 0 = None" and ex: "\<exists>q\<in>?mem. in_descendants br q 0"
  proof -
    from ex obtain q where q: "q \<in> ?mem" "in_descendants br q 0" by blast
    then have "q = 0" using only0 np by blast
    then have "0 \<in> ?mem" using q by simp
    moreover have "in_descendants br 0 0" by (rule in_descendants_self[OF assms(1,2) pos])
    moreover have "\<forall>q\<in>?mem. in_descendants br q 0 \<longrightarrow> level br ! q \<le> level br ! 0"
      using only0 np by auto
    ultimately show ?thesis using M0 by (simp add: I_VOID_def)
  qed
  have a: "\<forall>p<?n. 0 < p \<or> parent br ! 0 = None \<longrightarrow>
               (\<exists>q\<in>?mem. in_descendants br q p) \<longrightarrow>
                 M ! p \<in> ?mem \<and> in_descendants br (M ! p) p \<and>
                 (\<forall>q\<in>?mem. in_descendants br q p \<longrightarrow>
                    level br ! q \<le> level br ! (M ! p))"
  proof (intro allI impI)
    fix p assume p: "p < ?n" and c: "0 < p \<or> parent br ! 0 = None"
      and ex: "\<exists>q\<in>?mem. in_descendants br q p"
    show "M ! p \<in> ?mem \<and> in_descendants br (M ! p) p \<and>
          (\<forall>q\<in>?mem. in_descendants br q p \<longrightarrow> level br ! q \<le> level br ! (M ! p))"
    proof (cases "0 < p")
      case True then show ?thesis using deep p ex by blast
    next
      case False
      then have "p = 0" "parent br ! 0 = None" using c by auto
      then show ?thesis using zero ex by simp
    qed
  qed
  have b: "(\<forall>x\<in>set (id_col br). \<bar>x\<bar> \<in> set (id_col br)) \<longrightarrow>
               mapping_from_regions_list br S False
                 = Inr (map (\<lambda>x. M ! first_index (id_col br) \<bar>x\<bar>) (id_col br))"
    using unl delateralized_array[OF len] by simp
  have c: "mapping_from_regions_list fixture [10] True = Inr [0, 1, 2, 2, 2, 2, 1, 7, 7, 7, 7]"
    by code_simp
  have d: "mapping_from_regions_list fixture [10] False = Inr [0, 1, 2, 2, 2, 2, 1, 2, 2, 2, 2]"
    by code_simp
  from M len a b c d show ?thesis by blast
qed

theorem mapping_deepest_member_witness:
  "wf_regions fixture \<and> distinct (id_col fixture) \<and>
   set (symmetrize [10, 20]) \<subseteq> set (id_col fixture) \<and> id_col fixture \<noteq> [] \<and>
   mapping_from_regions_list fixture [10, 20] True = Inr [0, 1, 2, 3, 2, 3, 1, 7, 8, 7, 8] \<and>
   (\<exists>M. mapping_from_regions_list fixture [10, 20] True = Inr M \<and>
      length M = length (id_col fixture) \<and>
      mapping_from_regions_list fixture [10, 20] False
        = Inr (map (\<lambda>x. M ! first_index (id_col fixture) \<bar>x\<bar>) (id_col fixture)))"
proof -
  have wf: "wf_regions fixture" by (simp add: wf_regions_def fixture_def)
  have dist: "distinct (id_col fixture)" by code_simp
  have valid: "set (symmetrize [10, 20]) \<subseteq> set (id_col fixture)" by code_simp
  have ne: "id_col fixture \<noteq> []" by (simp add: fixture_def)
  have closed: "\<forall>x\<in>set (id_col fixture). \<bar>x\<bar> \<in> set (id_col fixture)"
    by (simp add: fixture_def)
  have ev: "mapping_from_regions_list fixture [10, 20] True
              = Inr [0, 1, 2, 3, 2, 3, 1, 7, 8, 7, 8]"
    by code_simp
  from mapping_deepest_member[OF wf dist valid ne] closed wf dist valid ne ev
  show ?thesis by blast
qed

section \<open>Invariants of a mapping array\<close>

lemma mirrored_row:
  assumes "mirrored br" and "distinct (id_col br)" and "p < length (id_col br)"
  shows "first_index (id_col br) (- (id_col br ! p)) < length (id_col br)"
    and "id_col br ! first_index (id_col br) (- (id_col br ! p)) = - (id_col br ! p)"
    and "parent br ! first_index (id_col br) (- (id_col br ! p))
           = map_option uminus (parent br ! p)"
proof -
  obtain q where q: "q < length (id_col br)" "id_col br ! q = - (id_col br ! p)"
    "parent br ! q = map_option uminus (parent br ! p)"
  proof -
    have "\<forall>p\<in>{0..<length (id_col br)}. \<exists>q\<in>{0..<length (id_col br)}.
            id_col br ! q = - (id_col br ! p) \<and>
            parent br ! q = map_option uminus (parent br ! p)"
      using assms(1) by (simp add: mirrored_def list_all_iff list_ex_iff)
    then have "\<exists>q\<in>{0..<length (id_col br)}.
            id_col br ! q = - (id_col br ! p) \<and>
            parent br ! q = map_option uminus (parent br ! p)"
      using assms(3) by simp
    then show ?thesis using that by auto
  qed
  have "first_index (id_col br) (- (id_col br ! p)) = q"
    using first_index_nth[OF assms(2) q(1)] q(2) by simp
  with q show "first_index (id_col br) (- (id_col br ! p)) < length (id_col br)"
    and "id_col br ! first_index (id_col br) (- (id_col br ! p)) = - (id_col br ! p)"
    and "parent br ! first_index (id_col br) (- (id_col br ! p))
           = map_option uminus (parent br ! p)"
    by simp_all
qed

lemma reach_down_mirror:
  assumes m: "mirrored br" and dist: "distinct (id_col br)"
  shows "p \<in> reach_down br [x] \<Longrightarrow>
         first_index (id_col br) (- (id_col br ! p)) \<in> reach_down br [- x]"
proof (induction rule: reach_down.induct)
  case (seed p)
  then show ?case
    using mirrored_row[OF m dist seed(1)] by (intro reach_down.seed) auto
next
  case (child q p)
  have q: "q < length (id_col br)" using child.hyps(1) by (rule reach_down_less)
  have "parent br ! first_index (id_col br) (- (id_col br ! p))
          = Some (id_col br ! first_index (id_col br) (- (id_col br ! q)))"
    using mirrored_row[OF m dist child.hyps(2)] mirrored_row[OF m dist q] child.hyps(3)
    by simp
  then show ?case
    using child.IH mirrored_row(1)[OF m dist child.hyps(2)]
    by (rule reach_down.child[rotated 2])
qed

lemma in_descendants_mirror:
  assumes wf: "wf_regions br" and m: "mirrored br" and dist: "distinct (id_col br)"
    and p: "p < length (id_col br)" and q: "q < length (id_col br)"
    and d: "in_descendants br q p"
  shows "in_descendants br (first_index (id_col br) (- (id_col br ! q)))
           (first_index (id_col br) (- (id_col br ! p)))"
proof -
  have "p \<in> reach_down br [id_col br ! q]"
    using d in_descendants_reach[OF wf dist p] by simp
  then have "first_index (id_col br) (- (id_col br ! p)) \<in> reach_down br [- (id_col br ! q)]"
    by (rule reach_down_mirror[OF m dist])
  then show ?thesis
    using in_descendants_reach[OF wf dist mirrored_row(1)[OF m dist p]]
      mirrored_row(2)[OF m dist q]
    by simp
qed

lemma mapping_success:
  assumes "mapping_from_regions_list br S lateralize = Inr M"
  shows "set (symmetrize S) \<subseteq> set (id_col br)" and "id_col br \<noteq> []"
proof -
  show "set (symmetrize S) \<subseteq> set (id_col br)"
    using assms
    by (auto simp: mapping_from_regions_list_def Let_def validation_passes split: if_splits)
  show "id_col br \<noteq> []"
  proof
    assume e: "id_col br = []"
    have "mapping_from_regions_list br S lateralize = Inl AssertionError \<or>
          mapping_from_regions_list br S lateralize = Inl IndexError"
      by (simp add: mapping_from_regions_list_def Let_def e np_where_def ismember_lia_def
          np_isin_def assign_self_def take_idx_def np_argsort_def bindE_def)
    with assms show False by auto
  qed
qed

text \<open>
  Claim C7. Let the columns of the store have one length and its ids be distinct; for
  \<open>lateralize = False\<close> let also the table be lateralized with the void id 0 at position
  0. Every array \<open>M\<close> that the builder returns has the length of the store; position 0
  maps to itself; every other position that lies in no member's descendant set maps to
  \<open>I_ROOT\<close>, the root's position 1; and every value is the position of a member of the
  symmetrized scheme (a row whose id is in the scheme's id set), or \<open>I_ROOT\<close>, or
  \<open>I_VOID\<close>.
\<close>

theorem mapping_array_invariants:
  assumes wf: "wf_regions br" and dist: "distinct (id_col br)"
    and res: "mapping_from_regions_list br S lateralize = Inr M"
    and lay: "lateralize \<or> (mirrored br \<and> id_col br ! 0 = 0)"
  shows "length M = length (id_col br) \<and> M ! 0 = 0 \<and>
         (\<forall>p<length (id_col br).
            0 < p \<and> (\<forall>q\<in>set (scheme_members br S). \<not> in_descendants br q p)
              \<longrightarrow> M ! p = I_ROOT) \<and>
         (\<forall>p<length (id_col br).
            (M ! p \<in> set (scheme_members br S) \<and>
             id_col br ! (M ! p) \<in> set (symmetrize S)) \<or>
            M ! p = I_ROOT \<or> M ! p = I_VOID)"
proof -
  let ?n = "length (id_col br)"
  let ?ids = "id_col br"
  let ?mem = "set (scheme_members br S)"
  note ok = mapping_success[OF res]
  obtain L where L: "mapping_from_regions_list br S True = Inr L"
    and lenL: "length L = ?n" and L0: "L ! 0 = I_VOID"
    and deep: "\<forall>p<?n. 0 < p \<longrightarrow>
              ((\<forall>q\<in>?mem. \<not> in_descendants br q p) \<longrightarrow> L ! p = I_ROOT) \<and>
              ((\<exists>q\<in>?mem. in_descendants br q p) \<longrightarrow>
                 L ! p \<in> ?mem \<and> in_descendants br (L ! p) p \<and>
                 (\<forall>q\<in>?mem. in_descendants br q p \<longrightarrow>
                    level br ! q \<le> level br ! (L ! p)))"
    and vals: "\<forall>p<?n. L ! p \<in> ?mem \<or> L ! p = I_ROOT \<or> L ! p = I_VOID"
    and unl: "mapping_from_regions_list br S False
             = take_idx L (ismember_locb (map abs ?ids) ?ids)"
    using mapping_lateralized_result[OF wf dist ok] by blast
  have memid: "?ids ! q \<in> set (symmetrize S)" if "q \<in> ?mem" for q
    using that by (simp add: set_scheme_members)
  have unc: "\<forall>p<?n. 0 < p \<and> (\<forall>q\<in>?mem. \<not> in_descendants br q p) \<longrightarrow> L ! p = I_ROOT"
    using deep by blast
  have valsL: "\<forall>p<?n. (L ! p \<in> ?mem \<and> ?ids ! (L ! p) \<in> set (symmetrize S)) \<or>
                  L ! p = I_ROOT \<or> L ! p = I_VOID"
    using vals memid by blast
  show ?thesis
  proof (cases lateralize)
    case True
    then have "M = L" using res L by simp
    then show ?thesis using lenL L0 unc valsL by (simp add: I_VOID_def)
  next
    case False
    then have mir: "mirrored br" and void: "?ids ! 0 = 0" using lay by auto
    have pos: "0 < ?n" using ok(2) by simp
    have neg_in: "- (?ids ! p) \<in> set ?ids" if "p < ?n" for p
      using mirrored_row(1,2)[OF mir dist that] nth_mem by metis
    have closed: "\<forall>x\<in>set ?ids. \<bar>x\<bar> \<in> set ?ids"
    proof
      fix x assume "x \<in> set ?ids"
      then obtain p where p: "p < ?n" "?ids ! p = x" by (auto simp: in_set_conv_nth)
      show "\<bar>x\<bar> \<in> set ?ids"
      proof (cases "0 \<le> x")
        case True then show ?thesis using \<open>x \<in> set ?ids\<close> by simp
      next
        case False then show ?thesis using neg_in[OF p(1)] p(2) by simp
      qed
    qed
    let ?pos = "\<lambda>p. first_index ?ids \<bar>?ids ! p\<bar>"
    have M: "M = map (\<lambda>x. L ! first_index ?ids \<bar>x\<bar>) ?ids"
      using res False unl delateralized_array[OF lenL closed] by simp
    have Mp: "M ! p = L ! ?pos p" if "p < ?n" for p
      using that by (simp add: M)
    have pos_lt: "?pos p < ?n" if "p < ?n" for p
      using closed that by (auto intro: first_index_less)
    have 1: "length M = ?n" by (simp add: M)
    have 2: "M ! 0 = 0"
    proof -
      have "?pos 0 = first_index ?ids (?ids ! 0)" using void by simp
      also have "\<dots> = 0" using first_index_nth[OF dist pos] .
      finally show ?thesis using Mp[OF pos] L0 by (simp add: I_VOID_def)
    qed
    have 3: "M ! p = I_ROOT"
      if p: "p < ?n" "0 < p" and none: "\<forall>q\<in>?mem. \<not> in_descendants br q p" for p
    proof (cases "0 \<le> ?ids ! p")
      case True
      then have "?pos p = p" using first_index_nth[OF dist p(1)] by simp
      then show ?thesis using Mp[OF p(1)] unc p none by simp
    next
      case False
      then have ab: "\<bar>?ids ! p\<bar> = - (?ids ! p)" by simp
      have pp: "?pos p < ?n" using pos_lt[OF p(1)] .
      have idpp: "?ids ! ?pos p = - (?ids ! p)"
        using mirrored_row(2)[OF mir dist p(1)] ab by simp
      have "?pos p \<noteq> 0"
      proof
        assume "?pos p = 0"
        then have "?ids ! 0 = - (?ids ! p)" using idpp by simp
        then show False using void False by simp
      qed
      then have pp0: "0 < ?pos p" by simp
      have bk: "first_index ?ids (- (?ids ! ?pos p)) = p"
        using idpp first_index_nth[OF dist p(1)] by simp
      have none': "\<forall>q\<in>?mem. \<not> in_descendants br q (?pos p)"
      proof (intro ballI notI)
        fix q assume q: "q \<in> ?mem" and d: "in_descendants br q (?pos p)"
        have qn: "q < ?n" using q by (simp add: set_scheme_members)
        let ?q' = "first_index ?ids (- (?ids ! q))"
        have "in_descendants br ?q' (first_index ?ids (- (?ids ! ?pos p)))"
          using in_descendants_mirror[OF wf mir dist pp qn d] .
        then have d': "in_descendants br ?q' p" using bk by simp
        have "- (?ids ! q) \<in> set (symmetrize S)"
          using memid[OF q] by (auto simp: set_symmetrize)
        then have "?q' \<in> ?mem"
          using mirrored_row(1,2)[OF mir dist qn] by (simp add: set_scheme_members)
        with none d' show False by blast
      qed
      show ?thesis using Mp[OF p(1)] unc pp pp0 none' by simp
    qed
    have 4: "(M ! p \<in> ?mem \<and> ?ids ! (M ! p) \<in> set (symmetrize S)) \<or>
              M ! p = I_ROOT \<or> M ! p = I_VOID" if p: "p < ?n" for p
      using Mp[OF p] valsL pos_lt[OF p] by simp
    show ?thesis using 1 2 3 4 by blast
  qed
qed

theorem mapping_array_invariants_witness:
  "wf_regions fixture \<and> distinct (id_col fixture) \<and>
   mapping_from_regions_list fixture [20] False = Inr [0, 1, 1, 3, 1, 3, 1, 1, 3, 1, 3] \<and>
   mirrored fixture \<and> id_col fixture ! 0 = 0 \<and>
   length [0, 1, 1, 3, 1, 3, 1, 1, 3, 1, 3 :: nat] = length (id_col fixture) \<and>
   scheme_members fixture [20] = [3, 8]"
proof -
  have wf: "wf_regions fixture" by (simp add: wf_regions_def fixture_def)
  have dist: "distinct (id_col fixture)" by code_simp
  have res: "mapping_from_regions_list fixture [20] False
               = Inr [0, 1, 1, 3, 1, 3, 1, 1, 3, 1, 3]"
    by code_simp
  have mir: "mirrored fixture" by code_simp
  have void: "id_col fixture ! 0 = 0" by (simp add: fixture_def)
  have lay: "False \<or> (mirrored fixture \<and> id_col fixture ! 0 = 0)" using mir void by simp
  have mem: "scheme_members fixture [20] = [3, 8]" by code_simp
  from mapping_array_invariants[OF wf dist res lay] wf dist res mir void mem
  show ?thesis by blast
qed

end
